theory Spec2Isabelle
  imports Main "HOL-Library.Sublist"
begin

section \<open>Strings\<close>

text \<open>
  A JavaScript string is a sequence of code units. The model uses \<^typ>\<open>string\<close>, whose
  characters are the code units U+0000 to U+00FF; on this range \<open>trim\<close> and
  \<open>toLowerCase\<close> below are the ECMAScript functions. The labels of the script
  (\<open>dashboard\<close>, \<open>groups\<close>, \<open>exams\<close>) are ASCII and contain neither \<open>k\<close> nor \<open>i\<close>,
  the only ASCII letters that a code point above U+00FF lowercases to.
\<close>

definition is_js_space :: "char \<Rightarrow> bool" where
  \<comment> \<open>WhiteSpace and LineTerminator of ECMAScript below U+0100:
      TAB, LF, VT, FF, CR, SPACE, NO-BREAK SPACE\<close>
  "is_js_space c = (of_char c \<in> set [9, 10, 11, 12, 13, 32, 160 :: nat])"

definition lower_unit :: "char \<Rightarrow> char" where
  \<comment> \<open>A to Z, and the Latin-1 capitals U+00C0 to U+00DE without the multiplication sign\<close>
  "lower_unit c = (let n = (of_char c :: nat) in
     if (65 \<le> n \<and> n \<le> 90) \<or> (192 \<le> n \<and> n \<le> 222 \<and> n \<noteq> 215)
     then char_of (n + 32) else c)"

definition trim :: "string \<Rightarrow> string" where
  "trim s = rev (dropWhile is_js_space (rev (dropWhile is_js_space s)))"

definition toLowerCase :: "string \<Rightarrow> string" where
  "toLowerCase s = map lower_unit s"

definition normalized :: "string \<Rightarrow> string" where
  \<comment> \<open>\<^verbatim>\<open>x.trim().toLowerCase()\<close>\<close>
  "normalized x = toLowerCase (trim x)"

section \<open>The DOM tree\<close>

text \<open>
  An element carries its identity (the object reference of the script), its local name
  (lowercase for the elements of an HTML document) and its class list. The children of
  an element are elements, text nodes and comments. A forest is the list of children of a
  parent, in document order.
\<close>

record elem =
  nid :: nat
  localName :: string
  classList :: "string list"

datatype node = Element elem "node list" | Text string | Comment string

text \<open>The selectors of the script: a type selector, a class selector, and two of them
  joined by the descendant combinator. Class names are compared as they are written (a
  document in no-quirks mode).\<close>

datatype simple = Tag string | Class string

datatype selector = Simple simple | Descendant simple simple

fun matches_simple :: "simple \<Rightarrow> elem \<Rightarrow> bool" where
  "matches_simple (Tag t) e = (localName e = t)"
| "matches_simple (Class c) e = (c \<in> set (classList e))"

text \<open>An element is given with the elements above it: the list starts with the element
  and goes on with its parent, its grandparent, up to the root.\<close>

fun matches :: "selector \<Rightarrow> elem list \<Rightarrow> bool" where
  "matches sel [] = False"
| "matches (Simple x) (e # up) = matches_simple x e"
| "matches (Descendant x y) (e # up) = (matches_simple y e \<and> list_ex (matches_simple x) up)"

fun ids :: "node list \<Rightarrow> nat list" where
  "ids [] = []"
| "ids (Element e ks # ns) = nid e # ids ks @ ids ns"
| "ids (n # ns) = ids ns"

fun textData :: "node list \<Rightarrow> string" where
  \<comment> \<open>the data of the text nodes of a forest, concatenated in document order\<close>
  "textData [] = []"
| "textData (Element e ks # ns) = textData ks @ textData ns"
| "textData (Text d # ns) = d @ textData ns"
| "textData (Comment d # ns) = textData ns"

fun lookup :: "nat \<Rightarrow> node list \<Rightarrow> node option" where
  "lookup j [] = None"
| "lookup j (Element e ks # ns) =
     (if nid e = j then Some (Element e ks)
      else case lookup j ks of Some n \<Rightarrow> Some n | None \<Rightarrow> lookup j ns)"
| "lookup j (n # ns) = lookup j ns"

fun ancestors :: "nat \<Rightarrow> elem list \<Rightarrow> node list \<Rightarrow> elem list option" where
  \<comment> \<open>the element \<open>j\<close> followed by the elements above it; \<open>up\<close> are the elements above
      the forest\<close>
  "ancestors j up [] = None"
| "ancestors j up (Element e ks # ns) =
     (if nid e = j then Some (e # up)
      else case ancestors j (e # up) ks of Some p \<Rightarrow> Some p | None \<Rightarrow> ancestors j up ns)"
| "ancestors j up (n # ns) = ancestors j up ns"

fun select :: "selector \<Rightarrow> elem list \<Rightarrow> node list \<Rightarrow> nat list" where
  \<comment> \<open>the elements of a forest that match, in document order\<close>
  "select sel up [] = []"
| "select sel up (Element e ks # ns) =
     (if matches sel (e # up) then [nid e] else []) @ select sel (e # up) ks @ select sel up ns"
| "select sel up (n # ns) = select sel up ns"

fun closest_on :: "selector \<Rightarrow> elem list \<Rightarrow> elem option" where
  "closest_on sel [] = None"
| "closest_on sel (e # up) = (if matches sel (e # up) then Some e else closest_on sel up)"

fun cut_out :: "nat \<Rightarrow> node list \<Rightarrow> node list" where
  \<comment> \<open>the forest without the subtree of element \<open>j\<close>\<close>
  "cut_out j [] = []"
| "cut_out j (Element e ks # ns) =
     (if nid e = j then cut_out j ns else Element e (cut_out j ks) # cut_out j ns)"
| "cut_out j (n # ns) = n # cut_out j ns"

fun following :: "nat \<Rightarrow> node list \<Rightarrow> node list option" where
  \<comment> \<open>the siblings after element \<open>j\<close>\<close>
  "following j [] = None"
| "following j (Element e ks # ns) =
     (if nid e = j then Some ns
      else case following j ks of Some r \<Rightarrow> Some r | None \<Rightarrow> following j ns)"
| "following j (n # ns) = following j ns"

fun first_element :: "node list \<Rightarrow> elem option" where
  "first_element [] = None"
| "first_element (Element e ks # ns) = Some e"
| "first_element (n # ns) = first_element ns"

fun append_child :: "nat \<Rightarrow> node \<Rightarrow> node list \<Rightarrow> node list" where
  "append_child j c [] = []"
| "append_child j c (Element e ks # ns) =
     (if nid e = j then Element e (ks @ [c]) # ns
      else Element e (append_child j c ks) # append_child j c ns)"
| "append_child j c (n # ns) = n # append_child j c ns"

fun roots :: "node list \<Rightarrow> nat list" where
  "roots [] = []"
| "roots (Element e ks # ns) = nid e # roots ns"
| "roots (n # ns) = roots ns"

section \<open>The page: document, detached nodes, console\<close>

text \<open>
  The script sees the page through DOM calls. A call of the host may throw; \<open>throws\<close>
  says which ones do. On a host that follows the DOM standard none of the calls of the
  script throws. \<open>parseHTML\<close> is the host's fragment parser behind \<^verbatim>\<open>innerHTML\<close>: it
  gets the first unused identity and the markup.
\<close>

datatype dom_call =
    QuerySelectorAll selector
  | QuerySelector selector
  | ForEach
  | TextContent nat
  | Closest nat selector
  | Remove nat
  | NextElementSibling nat
  | ClassListContains nat string
  | CreateElement string
  | SetInnerHTML nat
  | AppendChild nat

text \<open>
  What a call can throw: the failure of the host in a call, a type error of the script
  (a property read on \<^verbatim>\<open>null\<close>), and the use of a reference to an element that is
  nowhere on the page. The script gets its references from the page and nothing is ever
  destroyed, so the last one never happens; it is there to make the lookups total.
\<close>

datatype exn = HostError dom_call | InvalidReference nat | TypeError string

record host =
  throws :: "dom_call \<Rightarrow> bool"
  parseHTML :: "nat \<Rightarrow> string \<Rightarrow> node list"

text \<open>
  \<open>document\<close> holds the children of the document node. \<open>detached\<close> holds the roots of
  the trees that were taken out of the document and that the script still refers to. The
  console keeps the warnings and the reports of uncaught errors.
\<close>

record dom =
  document :: "node list"
  detached :: "node list"
  console :: "(string \<times> exn) list"

datatype completion = Normal dom | Abrupt exn dom

definition heap :: "dom \<Rightarrow> node list" where
  "heap s = document s @ detached s"

definition conforming :: "host \<Rightarrow> bool" where
  "conforming h = (\<forall>c. \<not> throws h c)"

definition unique_ids :: "dom \<Rightarrow> bool" where
  \<comment> \<open>every element is one object\<close>
  "unique_ids s = distinct (ids (heap s))"

definition querySelectorAll :: "host \<Rightarrow> selector \<Rightarrow> dom \<Rightarrow> exn + nat list" where
  "querySelectorAll h sel s =
     (if throws h (QuerySelectorAll sel) then Inl (HostError (QuerySelectorAll sel))
      else Inr (select sel [] (document s)))"

definition querySelector :: "host \<Rightarrow> selector \<Rightarrow> dom \<Rightarrow> exn + nat option" where
  "querySelector h sel s =
     (if throws h (QuerySelector sel) then Inl (HostError (QuerySelector sel))
      else Inr (case select sel [] (document s) of [] \<Rightarrow> None | x # xs \<Rightarrow> Some x))"

definition textContent :: "host \<Rightarrow> nat \<Rightarrow> dom \<Rightarrow> exn + string" where
  "textContent h a s =
     (if throws h (TextContent a) then Inl (HostError (TextContent a))
      else case lookup a (heap s) of
             None \<Rightarrow> Inl (InvalidReference a)
           | Some n \<Rightarrow> Inr (textData [n]))"

definition closest :: "host \<Rightarrow> nat \<Rightarrow> selector \<Rightarrow> dom \<Rightarrow> exn + nat option" where
  "closest h a sel s =
     (if throws h (Closest a sel) then Inl (HostError (Closest a sel))
      else case ancestors a [] (heap s) of
             None \<Rightarrow> Inl (InvalidReference a)
           | Some p \<Rightarrow> Inr (map_option nid (closest_on sel p)))"

definition remove :: "host \<Rightarrow> nat \<Rightarrow> dom \<Rightarrow> completion" where
  \<comment> \<open>\<^verbatim>\<open>li.remove()\<close>: a node without a parent stays as it is\<close>
  "remove h l s =
     (if throws h (Remove l) then Abrupt (HostError (Remove l)) s
      else case lookup l (document s) of
             Some n \<Rightarrow> Normal (s\<lparr>document := cut_out l (document s), detached := detached s @ [n]\<rparr>)
           | None \<Rightarrow>
              (case lookup l (detached s) of
                 None \<Rightarrow> Abrupt (InvalidReference l) s
               | Some n \<Rightarrow>
                   if l \<in> set (roots (detached s)) then Normal s
                   else Normal (s\<lparr>detached := cut_out l (detached s) @ [n]\<rparr>)))"

definition nextElementSibling :: "host \<Rightarrow> nat \<Rightarrow> dom \<Rightarrow> exn + nat option" where
  \<comment> \<open>the root of a detached tree has no siblings\<close>
  "nextElementSibling h x s =
     (if throws h (NextElementSibling x) then Inl (HostError (NextElementSibling x))
      else case following x (document s) of
             Some r \<Rightarrow> Inr (map_option nid (first_element r))
           | None \<Rightarrow>
              (case following x (detached s) of
                 None \<Rightarrow> Inl (InvalidReference x)
               | Some r \<Rightarrow>
                   if x \<in> set (roots (detached s)) then Inr None
                   else Inr (map_option nid (first_element r))))"

definition classList_contains :: "host \<Rightarrow> nat \<Rightarrow> string \<Rightarrow> dom \<Rightarrow> exn + bool" where
  "classList_contains h x c s =
     (if throws h (ClassListContains x c) then Inl (HostError (ClassListContains x c))
      else case lookup x (heap s) of
             Some (Element e ks) \<Rightarrow> Inr (c \<in> set (classList e))
           | _ \<Rightarrow> Inl (InvalidReference x))"

definition console_warn :: "string \<Rightarrow> exn \<Rightarrow> dom \<Rightarrow> dom" where
  "console_warn msg e s = s\<lparr>console := console s @ [(msg, e)]\<rparr>"

fun for_each :: "(nat \<Rightarrow> dom \<Rightarrow> completion) \<Rightarrow> nat list \<Rightarrow> dom \<Rightarrow> completion" where
  \<comment> \<open>the callback runs on the entries of the static list in order; a throw ends the loop\<close>
  "for_each f [] s = Normal s"
| "for_each f (a # as) s =
     (case f a s of Normal s' \<Rightarrow> for_each f as s' | Abrupt e s' \<Rightarrow> Abrupt e s')"

definition forEach :: "host \<Rightarrow> (nat \<Rightarrow> dom \<Rightarrow> completion) \<Rightarrow> nat list \<Rightarrow> dom \<Rightarrow> completion" where
  "forEach h f as s =
     (if throws h ForEach then Abrupt (HostError ForEach) s else for_each f as s)"

section \<open>The script\<close>

definition sidebar_anchors :: selector where
  \<comment> \<open>\<^verbatim>\<open>'.nav-sidebar a'\<close>\<close>
  "sidebar_anchors = Descendant (Class ''nav-sidebar'') (Tag ''a'')"

definition sidebar_headers :: selector where
  \<comment> \<open>\<^verbatim>\<open>'.nav-sidebar .nav-header'\<close>\<close>
  "sidebar_headers = Descendant (Class ''nav-sidebar'') (Class ''nav-header'')"

definition list_item :: selector where
  \<comment> \<open>\<^verbatim>\<open>'li'\<close>\<close>
  "list_item = Simple (Tag ''li'')"

definition callback1 :: "host \<Rightarrow> nat \<Rightarrow> dom \<Rightarrow> completion" where
  \<comment> \<open>lines 4 to 10: the callback of the first handler\<close>
  "callback1 h a s =
     (case textContent h a s of
        Inl e \<Rightarrow> Abrupt e s
      | Inr x \<Rightarrow>
          let t = toLowerCase (trim x) in
          if t = ''dashboard'' \<or> t = ''groups'' then
            (case closest h a (Simple (Tag ''li'')) s of
               Inl e \<Rightarrow> Abrupt e s
             | Inr None \<Rightarrow> Normal s
             | Inr (Some li) \<Rightarrow> remove h li s)
          else Normal s)"

definition callback2 :: "host \<Rightarrow> nat \<Rightarrow> dom \<Rightarrow> completion" where
  \<comment> \<open>lines 41 to 47: the callback of the second handler\<close>
  "callback2 h a s =
     (case textContent h a s of
        Inl e \<Rightarrow> Abrupt e s
      | Inr x \<Rightarrow>
          let t = toLowerCase (trim x) in
          if t = ''dashboard'' then
            (case closest h a (Simple (Tag ''li'')) s of
               Inl e \<Rightarrow> Abrupt e s
             | Inr None \<Rightarrow> Normal s
             | Inr (Some li) \<Rightarrow> remove h li s)
          else Normal s)"

definition remove_dashboard_and_groups :: "host \<Rightarrow> dom \<Rightarrow> completion" where
  \<comment> \<open>lines 3 to 10\<close>
  "remove_dashboard_and_groups h s =
     (case querySelectorAll h (Descendant (Class ''nav-sidebar'') (Tag ''a'')) s of
        Inl e \<Rightarrow> Abrupt e s
      | Inr as \<Rightarrow> forEach h (callback1 h) as s)"

definition remove_dashboard :: "host \<Rightarrow> dom \<Rightarrow> completion" where
  \<comment> \<open>lines 40 to 47\<close>
  "remove_dashboard h s =
     (case querySelectorAll h (Descendant (Class ''nav-sidebar'') (Tag ''a'')) s of
        Inl e \<Rightarrow> Abrupt e s
      | Inr as \<Rightarrow> forEach h (callback2 h) as s)"

fun find_exams :: "host \<Rightarrow> nat list \<Rightarrow> dom \<Rightarrow> exn + nat option" where
  \<comment> \<open>\<^verbatim>\<open>.find(h => h.textContent.trim().toLowerCase() === 'exams')\<close>\<close>
  "find_exams h [] s = Inr None"
| "find_exams h (x # xs) s =
     (case textContent h x s of
        Inl e \<Rightarrow> Inl e
      | Inr d \<Rightarrow> if toLowerCase (trim d) = ''exams'' then Inr (Some x) else find_exams h xs s)"

definition exams_ul :: "host \<Rightarrow> dom \<Rightarrow> exn + nat option" where
  \<comment> \<open>lines 12 to 19: the value of \<^verbatim>\<open>ul\<close> after the fallback; \<open>None\<close> is \<^verbatim>\<open>null\<close>\<close>
  "exams_ul h s =
     (case querySelectorAll h (Descendant (Class ''nav-sidebar'') (Class ''nav-header'')) s of
        Inl e \<Rightarrow> Inl e
      | Inr hs \<Rightarrow>
         (case find_exams h hs s of
            Inl e \<Rightarrow> Inl e
          | Inr examsHeader \<Rightarrow>
             (case (case examsHeader of
                      Some x \<Rightarrow> nextElementSibling h x s
                    | None \<Rightarrow> Inr None) of
                Inl e \<Rightarrow> Inl e
              | Inr None \<Rightarrow> querySelector h (Simple (Class ''nav-sidebar'')) s
              | Inr (Some u) \<Rightarrow>
                 (case classList_contains h u ''nav-treeview'' s of
                    Inl e \<Rightarrow> Inl e
                  | Inr True \<Rightarrow> Inr (Some u)
                  | Inr False \<Rightarrow> querySelector h (Simple (Class ''nav-sidebar'')) s))))"

definition fresh :: "dom \<Rightarrow> nat" where
  \<comment> \<open>an identity that no element of the page has\<close>
  "fresh s = Suc (fold max (ids (heap s)) 0)"

definition item_markup :: "string \<Rightarrow> string \<Rightarrow> string \<Rightarrow> string" where
  \<comment> \<open>the template literal of lines 24 to 27\<close>
  \<open>item_markup text href icon =
     ''<a href="'' @ href @ ''" class="nav-link">'' @ [CHR 0x0A] @
     ''          <i class="nav-icon '' @ icon @ ''"></i>'' @ [CHR 0x0A] @
     ''          <p>'' @ text @ ''</p>'' @ [CHR 0x0A] @
     ''        </a>''\<close>

definition addItem ::
  "host \<Rightarrow> nat option \<Rightarrow> string \<Rightarrow> string \<Rightarrow> string option \<Rightarrow> dom \<Rightarrow> completion" where
  \<comment> \<open>lines 21 to 29; \<open>ul\<close> is the variable of the enclosing handler, a missing third
      argument is \<open>None\<close>\<close>
  "addItem h ul text href icon_arg s =
     (let icon = (case icon_arg of None \<Rightarrow> ''fas fa-file-import'' | Some i \<Rightarrow> i) in
      if throws h (CreateElement ''li'') then Abrupt (HostError (CreateElement ''li'')) s
      else
        let i = fresh s;
            li = \<lparr>nid = i, localName = ''li'', classList = [''nav-item'']\<rparr> in
        if throws h (SetInnerHTML i)
        then Abrupt (HostError (SetInnerHTML i)) (s\<lparr>detached := detached s @ [Element li []]\<rparr>)
        else
          let item = Element li (parseHTML h (Suc i) (item_markup text href icon)) in
          case ul of
            None \<Rightarrow> Abrupt (TypeError ''ul is null'') (s\<lparr>detached := detached s @ [item]\<rparr>)
          | Some u \<Rightarrow>
              if throws h (AppendChild u)
              then Abrupt (HostError (AppendChild u)) (s\<lparr>detached := detached s @ [item]\<rparr>)
              else Normal (s\<lparr>document := append_child u item (document s),
                              detached := append_child u item (detached s)\<rparr>))"

definition handler1_body :: "host \<Rightarrow> dom \<Rightarrow> completion" where
  \<comment> \<open>lines 3 to 33: the \<^verbatim>\<open>try\<close> block of the first handler. \<open>addItem\<close> is declared
      and not called.\<close>
  "handler1_body h s =
     (case remove_dashboard_and_groups h s of
        Abrupt e s' \<Rightarrow> Abrupt e s'
      | Normal s' \<Rightarrow>
         (case exams_ul h s' of
            Inl e \<Rightarrow> Abrupt e s'
          | Inr ul \<Rightarrow> (let add_item = addItem h ul in Normal s')))"

definition handler1 :: "host \<Rightarrow> dom \<Rightarrow> completion" where
  \<comment> \<open>lines 1 to 37\<close>
  "handler1 h s =
     (case handler1_body h s of
        Normal s' \<Rightarrow> Normal s'
      | Abrupt e s' \<Rightarrow> Normal (console_warn ''Sidebar customization failed'' e s'))"

definition handler2 :: "host \<Rightarrow> dom \<Rightarrow> completion" where
  \<comment> \<open>lines 38 to 51\<close>
  "handler2 h s =
     (case remove_dashboard h s of
        Normal s' \<Rightarrow> Normal s'
      | Abrupt e s' \<Rightarrow> Normal (console_warn ''Sidebar customization failed'' e s'))"

text \<open>The script registers the two handlers for \<^verbatim>\<open>DOMContentLoaded\<close>, in this order. The
  event runs the listeners in the order of registration; an error that a listener
  throws is reported and the next listener runs.\<close>

definition listeners :: "(host \<Rightarrow> dom \<Rightarrow> completion) list" where
  "listeners = [handler1, handler2]"

fun dispatch :: "host \<Rightarrow> (host \<Rightarrow> dom \<Rightarrow> completion) list \<Rightarrow> dom \<Rightarrow> dom" where
  "dispatch h [] s = s"
| "dispatch h (l # ls) s =
     (case l h s of
        Normal s' \<Rightarrow> dispatch h ls s'
      | Abrupt e s' \<Rightarrow> dispatch h ls (s'\<lparr>console := console s' @ [(''Uncaught'', e)]\<rparr>))"

definition DOMContentLoaded :: "host \<Rightarrow> dom \<Rightarrow> dom" where
  "DOMContentLoaded h s = dispatch h listeners s"

section \<open>Notions for the statements and the proofs\<close>

text \<open>
  The statements speak of one tree, the document. \<open>anc x f\<close> is element \<open>x\<close> of the forest
  \<open>f\<close> followed by the elements above it, nearest first, and \<open>[]\<close> when \<open>f\<close> has no
  element \<open>x\<close>; the descendants of an element \<open>l\<close> are the \<open>x\<close> with \<open>l\<close> among the
  identities of \<open>anc x f\<close>.
\<close>

definition anc :: "nat \<Rightarrow> node list \<Rightarrow> elem list" where
  \<comment> \<open>the inclusive ancestors of \<open>x\<close>; \<open>ancestors\<close> with nothing above the forest\<close>
  "anc x f = (case ancestors x [] f of None \<Rightarrow> [] | Some p \<Rightarrow> p)"

definition wanted1 :: "string \<Rightarrow> bool" where
  \<comment> \<open>the test of the first callback on the trimmed, lowercased text\<close>
  "wanted1 t = (t = ''dashboard'' \<or> t = ''groups'')"

definition wanted2 :: "string \<Rightarrow> bool" where
  \<comment> \<open>the test of the second callback\<close>
  "wanted2 t = (t = ''dashboard'')"

definition prune_anchor :: "host \<Rightarrow> (string \<Rightarrow> bool) \<Rightarrow> nat \<Rightarrow> dom \<Rightarrow> completion" where
  \<comment> \<open>the two callbacks with the test on the text as a parameter\<close>
  "prune_anchor h wanted a s =
     (case textContent h a s of
        Inl e \<Rightarrow> Abrupt e s
      | Inr x \<Rightarrow>
          if wanted (normalized x) then
            (case closest h a list_item s of
               Inl e \<Rightarrow> Abrupt e s
             | Inr None \<Rightarrow> Normal s
             | Inr (Some li) \<Rightarrow> remove h li s)
          else Normal s)"

definition sweep :: "host \<Rightarrow> (string \<Rightarrow> bool) \<Rightarrow> dom \<Rightarrow> completion" where
  \<comment> \<open>the loop of a handler with the test as a parameter\<close>
  "sweep h P s =
     (case querySelectorAll h sidebar_anchors s of
        Inl e \<Rightarrow> Abrupt e s
      | Inr as \<Rightarrow> forEach h (prune_anchor h P) as s)"

definition target :: "(string \<Rightarrow> bool) \<Rightarrow> node list \<Rightarrow> nat \<Rightarrow> nat option" where
  \<comment> \<open>the \<open>li\<close> that a callback with test \<open>P\<close> removes when it visits anchor \<open>a\<close> in
      document \<open>D\<close>, if any\<close>
  "target P D a =
     (case lookup a D of
        None \<Rightarrow> None
      | Some n \<Rightarrow>
          if P (normalized (textData [n]))
          then map_option nid (closest_on list_item (anc a D)) else None)"

definition targets :: "(string \<Rightarrow> bool) \<Rightarrow> node list \<Rightarrow> nat list \<Rightarrow> nat list" where
  \<comment> \<open>the \<open>li\<close> elements for a list of anchors, all read in the same document\<close>
  "targets P D as = List.map_filter (target P D) as"

definition doc_step :: "(string \<Rightarrow> bool) \<Rightarrow> nat \<Rightarrow> node list \<Rightarrow> node list" where
  \<comment> \<open>what one visit does to the document\<close>
  "doc_step P a D = (case target P D a of None \<Rightarrow> D | Some l \<Rightarrow> cut_out l D)"

fun before :: "'a \<Rightarrow> 'a \<Rightarrow> 'a list \<Rightarrow> bool" where
  \<comment> \<open>\<open>x\<close> comes before \<open>y\<close> in the list\<close>
  "before x y [] = False"
| "before x y (z # l) = ((z = x \<and> y \<in> set l) \<or> before x y l)"

definition quiet :: "host \<Rightarrow> host" where
  \<comment> \<open>the same host with no call throwing\<close>
  "quiet h = h\<lparr>throws := (\<lambda>c. False)\<rparr>"

definition on_console :: "(string \<times> exn) list \<Rightarrow> completion \<Rightarrow> completion" where
  \<comment> \<open>the completion with the console replaced\<close>
  "on_console c r =
     (case r of Normal s \<Rightarrow> Normal (s\<lparr>console := c\<rparr>) | Abrupt e s \<Rightarrow> Abrupt e (s\<lparr>console := c\<rparr>))"

definition no_item_in_anchor :: "node list \<Rightarrow> bool" where
  \<comment> \<open>no \<open>li\<close> element lies inside an \<open>a\<close> element\<close>
  "no_item_in_anchor D =
     list_all (\<lambda>x. case anc x D of
                      [] \<Rightarrow> True
                    | e # up \<Rightarrow> localName e \<noteq> ''li'' \<or> \<not> list_ex (\<lambda>u. localName u = ''a'') up)
       (ids D)"

subsection \<open>The list for new items, read on the tree\<close>

text \<open>
  What lines 12 to 19 leave in \<^verbatim>\<open>ul\<close> when no call throws, as a function of the document.
  The fallback is \<^verbatim>\<open>document.querySelector('.nav-sidebar')\<close>: the first element that
  carries the class, whatever its name.
\<close>

definition first_sidebar :: "node list \<Rightarrow> nat option" where
  \<comment> \<open>the first element with the class \<open>nav-sidebar\<close>\<close>
  "first_sidebar D = (case select (Simple (Class ''nav-sidebar'')) [] D of [] \<Rightarrow> None | u # us \<Rightarrow> Some u)"

definition is_exams_header :: "node list \<Rightarrow> nat \<Rightarrow> bool" where
  \<comment> \<open>the trimmed, lowercased text of element \<open>x\<close> is \<open>exams\<close>\<close>
  "is_exams_header D x =
     (case lookup x D of Some n \<Rightarrow> toLowerCase (trim (textData [n])) = ''exams'' | None \<Rightarrow> False)"


subsection \<open>The list for new items, in the words of the specification\<close>






subsection \<open>The first handler without the unused part\<close>

definition handler1_without_appender :: "host \<Rightarrow> dom \<Rightarrow> completion" where
  \<comment> \<open>the first handler with lines 12 to 29 (the search for the \<^verbatim>\<open>ul\<close> and the declaration
      of \<^verbatim>\<open>addItem\<close>) taken out\<close>
  "handler1_without_appender h s =
     (case remove_dashboard_and_groups h s of
        Normal s' \<Rightarrow> Normal s'
      | Abrupt e s' \<Rightarrow> Normal (console_warn ''Sidebar customization failed'' e s'))"

section \<open>Hosts and pages of the examples\<close>

definition std_host :: host where
  \<comment> \<open>a host whose DOM calls do not throw\<close>
  "std_host = \<lparr>throws = (\<lambda>c. False), parseHTML = (\<lambda>i m. [])\<rparr>"

definition deaf_host :: host where
  \<comment> \<open>a host whose \<^verbatim>\<open>querySelectorAll\<close> throws\<close>
  "deaf_host = \<lparr>throws = (\<lambda>c. case c of QuerySelectorAll x \<Rightarrow> True | _ \<Rightarrow> False),
                 parseHTML = (\<lambda>i m. [])\<rparr>"

definition numb_host :: host where
  \<comment> \<open>a host on which reading the text of element 6 throws\<close>
  "numb_host = \<lparr>throws = (\<lambda>c. c = TextContent 6), parseHTML = (\<lambda>i m. [])\<rparr>"

definition el :: "nat \<Rightarrow> string \<Rightarrow> string list \<Rightarrow> node list \<Rightarrow> node" where
  \<comment> \<open>an element\<close>
  "el i t c ks = Element \<lparr>nid = i, localName = t, classList = c\<rparr> ks"

definition page :: "node list \<Rightarrow> dom" where
  \<comment> \<open>a freshly loaded page: nothing detached, an empty console\<close>
  "page d = \<lparr>document = d, detached = [], console = []\<rparr>"

definition reports_only :: "node list" where
  "reports_only =
     [el 0 ''html'' [] [el 1 ''body'' [] [el 2 ''ul'' [''nav'', ''nav-sidebar'']
        [el 3 ''li'' [''nav-item''] [el 4 ''a'' [''nav-link''] [Text ''Reports'']]]]]]"

definition plain_page :: "node list" where
  \<comment> \<open>a page without a sidebar\<close>
  "plain_page =
     [el 0 ''html'' [] [el 1 ''body'' []
        [el 2 ''div'' [''content''] [el 3 ''a'' [] [Text ''Dashboard'']]]]]"

definition bare_anchors :: "node list" where
  \<comment> \<open>a sidebar whose links are not in list items\<close>
  "bare_anchors =
     [el 0 ''html'' [] [el 1 ''body'' [] [el 2 ''nav'' [''nav-sidebar'']
        [el 3 ''a'' [''nav-link''] [Text ''Dashboard''],
         el 4 ''a'' [''nav-link''] [Text ''Reports'']]]]]"

definition spaced_item :: "node list" where
  "spaced_item =
     [el 0 ''html'' [] [el 1 ''body'' [] [el 2 ''ul'' [''nav-sidebar'']
        [el 3 ''li'' [] [el 4 ''a'' [] [Text '' Dashboard '']]]]]]"

definition two_items :: "node list" where
  "two_items =
     [el 0 ''html'' [] [el 1 ''body'' [] [el 2 ''ul'' [''nav-sidebar'']
        [el 3 ''li'' [] [el 4 ''a'' [] [Text ''Dashboard'']],
         el 5 ''li'' [] [el 6 ''a'' [] [Text ''Groups'']]]]]]"

definition three_items :: "node list" where
  "three_items =
     [el 0 ''html'' [] [el 1 ''body'' [] [el 2 ''ul'' [''nav-sidebar'']
        [el 3 ''li'' [] [el 4 ''a'' [] [Text ''Dashboard'']],
         el 5 ''li'' [] [el 6 ''a'' [] [Text ''Groups'']],
         el 7 ''li'' [] [el 8 ''a'' [] [Text ''Reports'']]]]]]"

definition nested_menu :: "node list" where
  \<comment> \<open>the item \<open>Reports\<close> lies in the submenu of the item \<open>Groups\<close>\<close>
  "nested_menu =
     [el 0 ''html'' [] [el 1 ''body'' [] [el 2 ''ul'' [''nav-sidebar'']
        [el 3 ''li'' []
           [el 4 ''a'' [] [Text ''Groups''],
            el 5 ''ul'' [''nav-treeview'']
              [el 6 ''li'' [] [el 7 ''a'' [] [Text ''Reports'']]]]]]]]"

definition nested_menu_pruned :: dom where
  \<comment> \<open>the page \<open>nested_menu\<close> after the first handler\<close>
  "nested_menu_pruned =
     \<lparr>document = [el 0 ''html'' [] [el 1 ''body'' [] [el 2 ''ul'' [''nav-sidebar''] []]]],
      detached = [el 3 ''li'' []
           [el 4 ''a'' [] [Text ''Groups''],
            el 5 ''ul'' [''nav-treeview'']
              [el 6 ''li'' [] [el 7 ''a'' [] [Text ''Reports'']]]]],
      console = []\<rparr>"

definition item_in_anchor :: "node list" where
  \<comment> \<open>element 4 is an anchor with an \<open>li\<close> inside it; a script can build such a tree
      with \<^verbatim>\<open>appendChild\<close>\<close>
  "item_in_anchor =
     [el 0 ''html'' [] [el 1 ''body'' [] [el 2 ''ul'' [''nav-sidebar'']
        [el 3 ''li'' []
           [el 4 ''a'' []
              [Text ''Dash'', el 5 ''li'' [] [el 6 ''a'' [] [Text ''groups'']], Text ''board'']]]]]]"

definition item_in_anchor_once :: dom where
  \<comment> \<open>the page \<open>item_in_anchor\<close> after one run of the first handler\<close>
  "item_in_anchor_once =
     \<lparr>document = [el 0 ''html'' [] [el 1 ''body'' [] [el 2 ''ul'' [''nav-sidebar'']
                 [el 3 ''li'' [] [el 4 ''a'' [] [Text ''Dash'', Text ''board'']]]]]],
      detached = [el 5 ''li'' [] [el 6 ''a'' [] [Text ''groups'']]],
      console = []\<rparr>"

definition item_in_anchor_twice :: dom where
  \<comment> \<open>and after two runs\<close>
  "item_in_anchor_twice =
     \<lparr>document = [el 0 ''html'' [] [el 1 ''body'' [] [el 2 ''ul'' [''nav-sidebar''] []]]],
      detached = [el 5 ''li'' [] [el 6 ''a'' [] [Text ''groups'']],
                  el 3 ''li'' [] [el 4 ''a'' [] [Text ''Dash'', Text ''board'']]],
      console = []\<rparr>"

definition exams_menu :: "node list" where
  "exams_menu =
     [el 0 ''html'' [] [el 1 ''body'' [] [el 2 ''ul'' [''nav'', ''nav-sidebar'']
        [el 3 ''li'' [''nav-item''] [el 4 ''a'' [] [Text ''Dashboard'']],
         el 5 ''li'' [''nav-header''] [Text '' Exams ''],
         Text [CHR 0x0A],
         el 6 ''ul'' [''nav'', ''nav-treeview'']
           [el 7 ''li'' [''nav-item''] [el 8 ''a'' [] [Text ''Papers'']]]]]]]"



section \<open>Trees: lookups, ancestors, cutting\<close>

lemma ancestors_None: "ancestors x up f = None \<longleftrightarrow> x \<notin> set (ids f)"
  by (induction x up f rule: ancestors.induct) (auto split: option.splits)

lemma lookup_None: "lookup x f = None \<longleftrightarrow> x \<notin> set (ids f)"
  by (induction x f rule: lookup.induct) (auto split: option.splits)

lemma ancestors_append:
  "ancestors x (up @ up') f = map_option (\<lambda>q. q @ up') (ancestors x up f)"
proof (induction f arbitrary: up rule: ids.induct)
  case (2 e ks ns)
  show ?case
    using "2.IH"(1)[of "e # up"] "2.IH"(2)[of up]
    by (simp split: option.splits)
qed simp_all

lemma ancestors_up: "ancestors x up f = map_option (\<lambda>q. q @ up) (ancestors x [] f)"
  using ancestors_append[of x "[]" up f] by simp

lemma ancestors_anc: "ancestors x up f = (if x \<in> set (ids f) then Some (anc x f @ up) else None)"
  using ancestors_up[of x up f] ancestors_None[of x "[]" f] ancestors_None[of x up f]
  by (auto simp: anc_def split: option.splits)

lemma anc_Nil [simp]: "anc x [] = []"
  by (simp add: anc_def)

lemma anc_Element [simp]:
  "anc x (Element e ks # ns) =
     (if nid e = x then [e] else if x \<in> set (ids ks) then anc x ks @ [e] else anc x ns)"
  by (simp add: anc_def ancestors_anc[of x "[e]"] ancestors_None split: option.splits)

lemma anc_Text [simp]: "anc x (Text d # ns) = anc x ns"
  and anc_Comment [simp]: "anc x (Comment d # ns) = anc x ns"
  by (simp_all add: anc_def)

lemma anc_empty: "anc x f = [] \<longleftrightarrow> x \<notin> set (ids f)"
  by (induction f rule: ids.induct) auto

lemma anc_ids: "e \<in> set (anc x f) \<Longrightarrow> nid e \<in> set (ids f)"
  by (induction f rule: ids.induct) (auto split: if_splits)

lemma anc_hd: "x \<in> set (ids f) \<Longrightarrow> \<exists>e up. anc x f = e # up \<and> nid e = x"
  by (induction f rule: ids.induct) (auto split: if_splits)

lemma ids_append [simp]: "ids (f @ g) = ids f @ ids g"
  by (induction f rule: ids.induct) auto

lemma lookup_append: "lookup x (f @ g) = (case lookup x f of Some n \<Rightarrow> Some n | None \<Rightarrow> lookup x g)"
  by (induction x f rule: lookup.induct) (auto split: option.splits)

lemma anc_append: "anc x (f @ g) = (if x \<in> set (ids f) then anc x f else anc x g)"
  by (induction f rule: ids.induct) auto

lemma lookup_Some: "lookup x f = Some n \<Longrightarrow> \<exists>e ks. n = Element e ks \<and> nid e = x"
  by (induction x f rule: lookup.induct) (auto split: option.splits if_splits)

lemma lookup_absent: "x \<notin> set (ids f) \<Longrightarrow> lookup x f = None"
  by (simp add: lookup_None)

lemma anc_absent: "x \<notin> set (ids f) \<Longrightarrow> anc x f = []"
  by (simp add: anc_empty)

lemma lookup_Element:
  "lookup x (Element e ks # ns) =
     (if nid e = x then Some (Element e ks)
      else if x \<in> set (ids ks) then lookup x ks else lookup x ns)"
  using lookup_None[of x ks] by (auto split: option.splits)

lemma ids_cut_out_subset: "x \<in> set (ids (cut_out j f)) \<Longrightarrow> x \<in> set (ids f)"
  by (induction j f rule: cut_out.induct) (auto split: if_splits)

lemma cut_out_absent: "j \<notin> set (ids f) \<Longrightarrow> cut_out j f = f"
  by (induction j f rule: cut_out.induct) auto

lemma distinct_cut_out: "distinct (ids f) \<Longrightarrow> distinct (ids (cut_out j f))"
  by (induction j f rule: cut_out.induct) (auto dest: ids_cut_out_subset)

lemma ids_cut_out:
  "distinct (ids f) \<Longrightarrow> x \<in> set (ids (cut_out j f)) \<longleftrightarrow> x \<in> set (ids f) \<and> j \<notin> nid ` set (anc x f)"
proof (induction j f rule: cut_out.induct)
  case (2 j e ks ns)
  then show ?case
    by (auto dest: ids_cut_out_subset anc_ids)
qed auto

lemma anc_cut_out:
  "distinct (ids f) \<Longrightarrow> x \<in> set (ids (cut_out j f)) \<Longrightarrow> anc x (cut_out j f) = anc x f"
proof (induction j f rule: cut_out.induct)
  case (2 j e ks ns)
  then show ?case
    by (auto simp: ids_cut_out)
qed auto

lemma lookup_cut_out:
  "distinct (ids f) \<Longrightarrow> x \<in> set (ids (cut_out j f)) \<Longrightarrow> x \<notin> nid ` set (anc j f) \<Longrightarrow>
   lookup x (cut_out j f) = lookup x f"
proof (induction j f rule: cut_out.induct)
  case (2 j e ks ns)
  then show ?case
    by (auto simp: lookup_Element anc_absent cut_out_absent ids_cut_out disjoint_iff
             simp del: lookup.simps(2) split: if_splits)
qed auto

lemma anc_suffix:
  "distinct (ids f) \<Longrightarrow> anc x f = pre @ e # post \<Longrightarrow> anc (nid e) f = e # post"
proof (induction f arbitrary: pre post rule: ids.induct)
  case (2 e0 ks ns)
  show ?case
  proof (cases "nid e0 = x")
    case True
    with "2.prems" show ?thesis by (auto simp: Cons_eq_append_conv)
  next
    case False
    show ?thesis
    proof (cases "x \<in> set (ids ks)")
      case True
      with False "2.prems" have eq: "anc x ks @ [e0] = pre @ e # post" by simp
      show ?thesis
      proof (cases post rule: rev_cases)
        case Nil
        with eq show ?thesis by simp
      next
        case (snoc post' z)
        with eq have a: "anc x ks = pre @ e # post'" and z: "z = e0" by auto
        from "2.prems" have "distinct (ids ks)" by simp
        from "2.IH"(1)[OF this a] have b: "anc (nid e) ks = e # post'" .
        then have "nid e \<in> set (ids ks)" using anc_empty[of "nid e" ks] by auto
        with "2.prems" b snoc z show ?thesis by auto
      qed
    next
      case xks: False
      with False "2.prems" have a: "anc x ns = pre @ e # post" by simp
      from "2.prems" have "distinct (ids ns)" by simp
      from "2.IH"(2)[OF this a] have b: "anc (nid e) ns = e # post" .
      then have "nid e \<in> set (ids ns)" using anc_empty[of "nid e" ns] by auto
      with "2.prems" b show ?thesis by auto
    qed
  qed
qed auto

lemma anc_elem_unique:
  assumes "distinct (ids f)" "e \<in> set (anc x f)" "e' \<in> set (anc y f)" "nid e = nid e'"
  shows "e = e'"
proof -
  from assms(2) obtain p1 q1 where "anc x f = p1 @ e # q1" by (auto simp: in_set_conv_decomp)
  from anc_suffix[OF assms(1) this] have a: "anc (nid e) f = e # q1" .
  from assms(3) obtain p2 q2 where "anc y f = p2 @ e' # q2" by (auto simp: in_set_conv_decomp)
  from anc_suffix[OF assms(1) this] have "anc (nid e') f = e' # q2" .
  with a assms(4) show ?thesis by simp
qed

lemma anc_trans:
  assumes "distinct (ids f)" "e \<in> set (anc x f)" "e' \<in> set (anc (nid e) f)"
  shows "e' \<in> set (anc x f)"
proof -
  from assms(2) obtain p q where pq: "anc x f = p @ e # q" by (auto simp: in_set_conv_decomp)
  from anc_suffix[OF assms(1) this] assms(3) pq show ?thesis by auto
qed

lemma distinct_fold_cut_out: "distinct (ids f) \<Longrightarrow> distinct (ids (fold cut_out ts f))"
  by (induction ts arbitrary: f) (auto simp: distinct_cut_out)

lemma ids_fold_cut_out:
  "distinct (ids f) \<Longrightarrow>
   x \<in> set (ids (fold cut_out ts f)) \<longleftrightarrow> x \<in> set (ids f) \<and> set ts \<inter> nid ` set (anc x f) = {}"
proof (induction ts arbitrary: f)
  case (Cons t ts)
  from Cons.prems have d: "distinct (ids (cut_out t f))" by (rule distinct_cut_out)
  show ?case
    using Cons.IH[OF d] Cons.prems
    by (auto simp: ids_cut_out anc_cut_out)
qed simp

lemma anc_fold_cut_out:
  "distinct (ids f) \<Longrightarrow> x \<in> set (ids (fold cut_out ts f)) \<Longrightarrow> anc x (fold cut_out ts f) = anc x f"
proof (induction ts arbitrary: f)
  case (Cons t ts)
  from Cons.prems have d: "distinct (ids (cut_out t f))" by (simp add: distinct_cut_out)
  from Cons.prems have x: "x \<in> set (ids (fold cut_out ts (cut_out t f)))" by simp
  then have "x \<in> set (ids (cut_out t f))" using ids_fold_cut_out[OF d] by blast
  with Cons.IH[OF d x] Cons.prems(1) show ?case by (simp add: anc_cut_out)
qed simp

lemma lookup_fold_cut_out:
  "distinct (ids f) \<Longrightarrow> x \<in> set (ids (fold cut_out ts f)) \<Longrightarrow>
   \<forall>t\<in>set ts. x \<notin> nid ` set (anc t f) \<Longrightarrow>
   lookup x (fold cut_out ts f) = lookup x f"
proof (induction ts arbitrary: f)
  case (Cons t ts)
  from Cons.prems have d: "distinct (ids (cut_out t f))" by (simp add: distinct_cut_out)
  from Cons.prems have x: "x \<in> set (ids (fold cut_out ts (cut_out t f)))" by simp
  then have x': "x \<in> set (ids (cut_out t f))" using ids_fold_cut_out[OF d] by blast
  have "\<forall>t'\<in>set ts. x \<notin> nid ` set (anc t' (cut_out t f))"
  proof
    fix t' assume t': "t' \<in> set ts"
    show "x \<notin> nid ` set (anc t' (cut_out t f))"
    proof (cases "t' \<in> set (ids (cut_out t f))")
      case True
      then show ?thesis using anc_cut_out[OF Cons.prems(1) True] Cons.prems(3) t' by simp
    next
      case False
      then show ?thesis by (simp add: anc_absent)
    qed
  qed
  from Cons.IH[OF d x this] lookup_cut_out[OF Cons.prems(1) x'] Cons.prems(3)
  show ?case by simp
qed simp

subsection \<open>Document order\<close>

lemma before_set: "before x y l \<Longrightarrow> x \<in> set l \<and> y \<in> set l"
  by (induction l) auto

lemma before_append:
  "before x y (l1 @ l2) \<longleftrightarrow> before x y l1 \<or> before x y l2 \<or> (x \<in> set l1 \<and> y \<in> set l2)"
  by (induction l1) (auto dest: before_set)

lemma before_antisym: "distinct l \<Longrightarrow> before x y l \<Longrightarrow> \<not> before y x l"
  by (induction l) (auto dest: before_set)

lemma before_subseq: "subseq xs ys \<Longrightarrow> before x y xs \<Longrightarrow> before x y ys"
proof (induction rule: list_emb.induct)
  case (list_emb_Cons xs ys z)
  then show ?case by simp
next
  case (list_emb_Cons2 a b xs ys)
  then show ?case using subseq_order.dual_order.trans[of xs ys] 
    by (auto dest: list_emb_set)
qed simp

lemma select_subseq: "subseq (select sel up f) (ids f)"
  by (induction sel up f rule: select.induct) (auto intro: list_emb_append_mono)

lemma anc_before: "e \<in> set (anc b f) \<Longrightarrow> nid e \<noteq> b \<Longrightarrow> before (nid e) b (ids f)"
  by (induction f rule: ids.induct) (auto simp: before_append dest: anc_ids split: if_splits)

lemma closest_on_Simple:
  "closest_on (Simple x) p = Some e \<Longrightarrow>
   \<exists>pre post. p = pre @ e # post \<and> matches_simple x e \<and> (\<forall>y\<in>set pre. \<not> matches_simple x y)"
proof (induction p)
  case (Cons a p)
  show ?case
  proof (cases "matches_simple x a")
    case True
    with Cons.prems show ?thesis by (intro exI[of _ "[]"] exI[of _ p]) auto
  next
    case False
    with Cons.prems have "closest_on (Simple x) p = Some e" by simp
    from Cons.IH[OF this] obtain pre post where
      "p = pre @ e # post" "matches_simple x e" "\<forall>y\<in>set pre. \<not> matches_simple x y" by blast
    with False show ?thesis by (intro exI[of _ "a # pre"] exI[of _ post]) auto
  qed
qed simp

lemma targets_append: "targets P D (xs @ ys) = targets P D xs @ targets P D ys"
  by (simp add: targets_def map_filter_def)

lemma targets_single:
  "targets P D [a] = (case target P D a of None \<Rightarrow> [] | Some l \<Rightarrow> [l])"
  by (simp add: targets_def map_filter_def split: option.splits)

lemma in_targets:
  "t \<in> set (targets P D as) \<longleftrightarrow> (\<exists>b\<in>set as. target P D b = Some t)"
  by (force simp: targets_def map_filter_def image_iff)

lemma target_li:
  assumes "target P D b = Some t"
  shows "\<exists>e pre post. anc b D = pre @ e # post \<and> nid e = t \<and> localName e = ''li'' \<and>
           (\<forall>y\<in>set pre. localName y \<noteq> ''li'')"
proof -
  from assms obtain e where "closest_on list_item (anc b D) = Some e" "nid e = t"
    by (auto simp: target_def split: option.splits if_splits)
  with closest_on_Simple[of "Tag ''li''" "anc b D" e] show ?thesis
    by (auto simp: list_item_def)
qed

lemma target_in_ids: "target P D b = Some t \<Longrightarrow> b \<in> set (ids D)"
  using lookup_None[of b D] by (auto simp: target_def split: option.splits)

section \<open>The loop, seen on the document alone\<close>

lemma subseq_distinct: "subseq xs ys \<Longrightarrow> distinct ys \<Longrightarrow> distinct xs"
proof (induction rule: list_emb.induct)
  case (list_emb_Cons2 x y xs ys)
  then show ?case by (auto dest: list_emb_set)
qed auto

lemma target_li_anc:
  assumes "target P D b = Some t"
  shows "\<exists>e. e \<in> set (anc b D) \<and> nid e = t \<and> localName e = ''li''"
  using target_li[OF assms] by fastforce

lemma doc_step_keeps:
  assumes d: "distinct (ids D0)"
    and sub: "subseq (pre @ a # suf) (ids D0)"
    and in_D: "a \<in> set (ids (fold cut_out (targets P D0 pre) D0))"
  shows "target P (fold cut_out (targets P D0 pre) D0) a = target P D0 a"
proof -
  let ?ts = "targets P D0 pre"
  let ?D = "fold cut_out ?ts D0"
  have dA: "distinct (pre @ a # suf)" using sub d by (rule subseq_distinct)
  have no_desc: "\<forall>t\<in>set ?ts. a \<notin> nid ` set (anc t D0)"
  proof (intro ballI notI)
    fix t assume t: "t \<in> set ?ts" and a: "a \<in> nid ` set (anc t D0)"
    from t obtain b where b: "b \<in> set pre" "target P D0 b = Some t"
      by (auto simp: in_targets)
    from target_li_anc[OF b(2)] obtain e where e: "e \<in> set (anc b D0)" "nid e = t" by auto
    from a obtain ea where ea: "ea \<in> set (anc t D0)" "nid ea = a" by auto
    from anc_trans[OF d e(1)] ea e(2) have "ea \<in> set (anc b D0)" by simp
    moreover from b(1) dA have "a \<noteq> b" by auto
    ultimately have "before a b (ids D0)" using anc_before[of ea b D0] ea(2) by simp
    moreover from b(1) have "before b a (pre @ a # suf)" by (simp add: before_append)
    then have "before b a (ids D0)" by (rule before_subseq[OF sub])
    ultimately show False using before_antisym[OF d] by blast
  qed
  have "anc a ?D = anc a D0" using anc_fold_cut_out[OF d in_D] .
  moreover have "lookup a ?D = lookup a D0" using lookup_fold_cut_out[OF d in_D no_desc] .
  ultimately show ?thesis by (simp add: target_def split: option.splits)
qed

lemma doc_step_gone:
  assumes d: "distinct (ids D0)"
    and out_D: "a \<notin> set (ids (fold cut_out ts D0))"
    and ts: "\<forall>t\<in>set ts. \<exists>b. target P D0 b = Some t"
    and l: "target P D0 a = Some l"
  shows "l \<notin> set (ids (fold cut_out ts D0))"
proof -
  from l have "a \<in> set (ids D0)" by (rule target_in_ids)
  with out_D ids_fold_cut_out[OF d, of a ts] obtain t et where
    t: "t \<in> set ts" "et \<in> set (anc a D0)" "nid et = t" by auto
  from ts t(1) obtain b where "target P D0 b = Some t" by blast
  from target_li_anc[OF this] obtain e' where e': "e' \<in> set (anc b D0)" "nid e' = t" "localName e' = ''li''"
    by auto
  from anc_elem_unique[OF d t(2) e'(1)] t(3) e'(2) have "et = e'" by simp
  with e'(3) have li: "localName et = ''li''" by simp
  from target_li[OF l] obtain el p q where
    el: "anc a D0 = p @ el # q" "nid el = l" "\<forall>y\<in>set p. localName y \<noteq> ''li''" by auto
  from t(2) el(1) el(3) li have "et \<in> set (el # q)" by auto
  moreover from anc_suffix[OF d el(1)] el(2) have "anc l D0 = el # q" by simp
  ultimately have "t \<in> nid ` set (anc l D0)" using t(3) by auto
  with t(1) show ?thesis using ids_fold_cut_out[OF d, of l ts] by auto
qed

lemma doc_step_fold:
  assumes d: "distinct (ids D0)"
    and sub: "subseq (pre @ a # suf) (ids D0)"
  shows "doc_step P a (fold cut_out (targets P D0 pre) D0) =
         fold cut_out (targets P D0 (pre @ [a])) D0"
proof (cases "a \<in> set (ids (fold cut_out (targets P D0 pre) D0))")
  case True
  from doc_step_keeps[OF d sub True] show ?thesis
    by (simp add: doc_step_def targets_append targets_single split: option.splits)
next
  case False
  then have n: "target P (fold cut_out (targets P D0 pre) D0) a = None"
    by (simp add: target_def lookup_absent)
  have ts: "\<forall>t\<in>set (targets P D0 pre). \<exists>b. target P D0 b = Some t"
    by (auto simp: in_targets)
  show ?thesis
  proof (cases "target P D0 a")
    case None
    with n show ?thesis by (simp add: doc_step_def targets_append targets_single)
  next
    case (Some l)
    from doc_step_gone[OF d False ts Some] have "cut_out l (fold cut_out (targets P D0 pre) D0) =
        fold cut_out (targets P D0 pre) D0" by (rule cut_out_absent)
    with n Some show ?thesis by (simp add: doc_step_def targets_append targets_single)
  qed
qed

lemma doc_loop_fold:
  assumes d: "distinct (ids D0)"
  shows "subseq (pre @ suf) (ids D0) \<Longrightarrow>
         fold (doc_step P) suf (fold cut_out (targets P D0 pre) D0) =
         fold cut_out (targets P D0 (pre @ suf)) D0"
proof (induction suf arbitrary: pre)
  case (Cons a suf)
  from Cons.prems have "subseq ((pre @ [a]) @ suf) (ids D0)" by simp
  from Cons.IH[OF this] doc_step_fold[OF d Cons.prems] show ?case by simp
qed simp

lemma doc_loop_targets:
  assumes "distinct (ids D0)" "subseq as (ids D0)"
  shows "fold (doc_step P) as D0 = fold cut_out (targets P D0 as) D0"
  using doc_loop_fold[OF assms(1), of "[]" as P] assms(2) by (simp add: targets_def map_filter_def)

section \<open>The calls on the page\<close>

lemma callback1_prune: "callback1 h = prune_anchor h wanted1"
  by (intro ext) (simp add: callback1_def prune_anchor_def wanted1_def normalized_def list_item_def Let_def split: sum.splits)

lemma callback2_prune: "callback2 h = prune_anchor h wanted2"
  by (intro ext) (simp add: callback2_def prune_anchor_def wanted2_def normalized_def list_item_def Let_def split: sum.splits)

lemma lookup_desc:
  "distinct (ids f) \<Longrightarrow> lookup l f = Some n \<Longrightarrow>
   (x \<in> set (ids [n]) \<longleftrightarrow> l \<in> nid ` set (anc x f))"
proof (induction f rule: ids.induct)
  case (2 e ks ns)
  then show ?case
    by (auto simp: lookup_Element anc_absent lookup_absent disjoint_iff
             simp del: lookup.simps(2) dest: anc_ids split: if_splits)
qed auto

lemma lookup_distinct:
  "distinct (ids f) \<Longrightarrow> lookup l f = Some n \<Longrightarrow> distinct (ids [n])"
proof (induction f rule: ids.induct)
  case (2 e ks ns)
  then show ?case
    by (auto simp: lookup_Element simp del: lookup.simps(2) split: if_splits)
qed auto

lemma cut_out_split:
  assumes "distinct (ids f)" "lookup l f = Some n"
  shows "set (ids (cut_out l f)) \<inter> set (ids [n]) = {}"
    and "set (ids (cut_out l f)) \<union> set (ids [n]) = set (ids f)"
proof -
  show "set (ids (cut_out l f)) \<inter> set (ids [n]) = {}"
    using ids_cut_out[OF assms(1)] lookup_desc[OF assms] by blast
  have "x \<in> set (ids f)" if "x \<in> set (ids [n])" for x
    using that lookup_desc[OF assms, of x] anc_absent[of x f] by (cases "x \<in> set (ids f)") auto
  then show "set (ids (cut_out l f)) \<union> set (ids [n]) = set (ids f)"
    using ids_cut_out[OF assms(1)] lookup_desc[OF assms] by blast
qed

lemma lookup_heap:
  "lookup a (heap s) = (if a \<in> set (ids (document s)) then lookup a (document s) else lookup a (detached s))"
  by (auto simp: heap_def lookup_append lookup_absent lookup_None split: option.splits)

lemma anc_heap:
  "anc a (heap s) = (if a \<in> set (ids (document s)) then anc a (document s) else anc a (detached s))"
  by (simp add: heap_def anc_append)

lemma ids_heap: "set (ids (heap s)) = set (ids (document s)) \<union> set (ids (detached s))"
  by (simp add: heap_def)

lemma textContent_val:
  "\<not> throws h (TextContent a) \<Longrightarrow>
   textContent h a s = (case lookup a (heap s) of None \<Rightarrow> Inl (InvalidReference a) | Some n \<Rightarrow> Inr (textData [n]))"
  by (simp add: textContent_def)

lemma closest_val:
  "\<not> throws h (Closest a sel) \<Longrightarrow>
   closest h a sel s = (if a \<in> set (ids (heap s)) then Inr (map_option nid (closest_on sel (anc a (heap s))))
                        else Inl (InvalidReference a))"
  by (simp add: closest_def ancestors_anc)

lemma closest_on_in: "closest_on sel p = Some e \<Longrightarrow> e \<in> set p"
  by (induction p) (auto split: if_splits)

lemma remove_Abrupt: "remove h l s = Abrupt e s' \<Longrightarrow> s' = s"
  by (auto simp: remove_def split: if_splits option.splits)

lemma remove_quiet: "remove h l s = Normal s' \<Longrightarrow> remove (quiet h) l s = Normal s'"
  by (auto simp: remove_def quiet_def split: if_splits option.splits)

lemma remove_doc:
  assumes u: "unique_ids s" and r: "remove h l s = Normal s'"
  shows "document s' = cut_out l (document s) \<and> unique_ids s' \<and>
      set (ids (heap s')) = set (ids (heap s)) \<and> console s' = console s"
proof -
  from u have dd: "distinct (ids (document s))" and dt: "distinct (ids (detached s))"
    and dj: "set (ids (document s)) \<inter> set (ids (detached s)) = {}"
    by (auto simp: unique_ids_def heap_def)
  show ?thesis
  proof (cases "lookup l (document s)")
    case (Some n)
    with r have s': "s' = s\<lparr>document := cut_out l (document s), detached := detached s @ [n]\<rparr>"
      by (auto simp: remove_def split: if_splits)
    from cut_out_split[OF dd Some] lookup_distinct[OF dd Some] distinct_cut_out[OF dd, of l] dt dj
    show ?thesis
      unfolding s' unique_ids_def heap_def by auto
  next
    case None
    then have nd: "cut_out l (document s) = document s"
      by (simp add: cut_out_absent lookup_None)
    show ?thesis
    proof (cases "l \<in> set (roots (detached s))")
      case True
      with r None have "s' = s" by (auto simp: remove_def split: if_splits option.splits)
      with nd u show ?thesis by simp
    next
      case False
      with r None obtain n where n: "lookup l (detached s) = Some n"
        and s': "s' = s\<lparr>detached := cut_out l (detached s) @ [n]\<rparr>"
        by (auto simp: remove_def split: if_splits option.splits)
      from cut_out_split[OF dt n] lookup_distinct[OF dt n] distinct_cut_out[OF dt, of l] dd dj nd
      show ?thesis
        unfolding s' unique_ids_def heap_def by auto
    qed
  qed
qed

lemma prune_anchor_Abrupt: "prune_anchor h P a s = Abrupt e s' \<Longrightarrow> s' = s"
  by (auto simp: prune_anchor_def split: sum.splits if_splits option.splits dest: remove_Abrupt)

lemma textContent_quiet: "textContent h a s = Inr x \<Longrightarrow> textContent (quiet h) a s = Inr x"
  by (auto simp: textContent_def quiet_def split: if_splits)

lemma closest_quiet: "closest h a sel s = Inr x \<Longrightarrow> closest (quiet h) a sel s = Inr x"
  by (auto simp: closest_def quiet_def split: if_splits)

lemma prune_anchor_quiet:
  "prune_anchor h P a s = Normal s' \<Longrightarrow> prune_anchor (quiet h) P a s = Normal s'"
  by (auto simp: prune_anchor_def textContent_quiet closest_quiet remove_quiet
           split: sum.splits if_splits option.splits)

lemma prune_anchor_doc:
  assumes u: "unique_ids s" and r: "prune_anchor h P a s = Normal s'"
  shows "document s' = doc_step P a (document s) \<and> unique_ids s' \<and>
         set (ids (heap s')) = set (ids (heap s)) \<and> console s' = console s"
proof -
  from u have dj: "set (ids (document s)) \<inter> set (ids (detached s)) = {}"
    by (auto simp: unique_ids_def heap_def)
  from r obtain x where x: "textContent h a s = Inr x"
    by (auto simp: prune_anchor_def split: sum.splits)
  then obtain n where n: "lookup a (heap s) = Some n" "x = textData [n]"
    by (auto simp: textContent_def split: if_splits option.splits)
  then have a_in: "a \<in> set (ids (heap s))" using lookup_None[of a "heap s"] by auto
  have tgt: "target P (document s) a =
      (if a \<in> set (ids (document s)) \<and> P (normalized x)
       then map_option nid (closest_on list_item (anc a (heap s))) else None)"
    using n by (auto simp: target_def lookup_heap anc_heap lookup_absent split: option.splits if_splits)
  show ?thesis
  proof (cases "P (normalized x)")
    case False
    with r x have "s' = s" by (simp add: prune_anchor_def)
    with False tgt u show ?thesis by (simp add: doc_step_def)
  next
    case True
    with r x obtain c where c: "closest h a list_item s = Inr c"
      by (auto simp: prune_anchor_def split: sum.splits)
    then have cv: "c = map_option nid (closest_on list_item (anc a (heap s)))"
      using a_in by (auto simp: closest_def ancestors_anc split: if_splits)
    show ?thesis
    proof (cases c)
      case None
      with r x c True have "s' = s" by (simp add: prune_anchor_def)
      with None cv tgt u show ?thesis by (simp add: doc_step_def)
    next
      case (Some l)
      with r x c True have rm: "remove h l s = Normal s'" by (simp add: prune_anchor_def)
      from Some cv obtain e where e: "closest_on list_item (anc a (heap s)) = Some e" "nid e = l"
        by auto
      from closest_on_in[OF e(1)] anc_ids e(2) have l_in: "l \<in> set (ids (heap s))" by blast
      have "doc_step P a (document s) = cut_out l (document s)"
      proof (cases "a \<in> set (ids (document s))")
        case True
        with tgt \<open>P (normalized x)\<close> e show ?thesis by (simp add: doc_step_def)
      next
        case False
        with closest_on_in[OF e(1)] e(2) anc_ids[of e a "detached s"]
        have "l \<in> set (ids (detached s))" by (auto simp: anc_heap)
        with dj have "l \<notin> set (ids (document s))" by blast
        with False tgt show ?thesis by (simp add: doc_step_def cut_out_absent)
      qed
      with remove_doc[OF u rm] show ?thesis by simp
    qed
  qed
qed

lemma remove_total:
  "\<not> throws h (Remove l) \<Longrightarrow> l \<in> set (ids (heap s)) \<Longrightarrow> \<exists>s'. remove h l s = Normal s'"
  using lookup_None[of l "document s"] lookup_None[of l "detached s"]
  by (auto simp: remove_def ids_heap split: option.splits)

lemma prune_anchor_total:
  assumes "conforming h" "a \<in> set (ids (heap s))"
  shows "\<exists>s'. prune_anchor h P a s = Normal s'"
proof -
  from assms(1) have nt: "\<And>c. \<not> throws h c" by (simp add: conforming_def)
  from assms(2) obtain n where n: "lookup a (heap s) = Some n"
    using lookup_None[of a "heap s"] by auto
  show ?thesis
  proof (cases "closest_on list_item (anc a (heap s))")
    case None
    with n assms(2) show ?thesis
      by (simp add: prune_anchor_def textContent_val[OF nt] closest_val[OF nt])
  next
    case (Some e)
    from closest_on_in[OF Some] anc_ids have "nid e \<in> set (ids (heap s))" by blast
    from remove_total[OF nt this] obtain s' where "remove h (nid e) s = Normal s'" by blast
    with Some n assms(2) show ?thesis
      by (simp add: prune_anchor_def textContent_val[OF nt] closest_val[OF nt])
  qed
qed

lemma prune_anchor_noop:
  assumes "a \<in> set (ids (document s))" "target P (document s) a = None"
  shows "prune_anchor h P a s = Normal s \<or> (\<exists>e. prune_anchor h P a s = Abrupt e s)"
    and "conforming h \<Longrightarrow> prune_anchor h P a s = Normal s"
proof -
  from assms(1) obtain n where n: "lookup a (document s) = Some n"
    using lookup_None[of a "document s"] by auto
  with assms have la: "lookup a (heap s) = Some n" and ah: "a \<in> set (ids (heap s))"
    and an: "anc a (heap s) = anc a (document s)"
    by (simp_all add: lookup_heap anc_heap ids_heap)
  from assms(2) n have t: "P (normalized (textData [n])) \<Longrightarrow> closest_on list_item (anc a (document s)) = None"
    by (simp add: target_def)
  show "prune_anchor h P a s = Normal s \<or> (\<exists>e. prune_anchor h P a s = Abrupt e s)"
    using la ah an t
    by (auto simp: prune_anchor_def textContent_def closest_def ancestors_anc split: sum.splits)
  show "conforming h \<Longrightarrow> prune_anchor h P a s = Normal s"
    using la ah an t
    by (auto simp: prune_anchor_def textContent_def closest_def ancestors_anc conforming_def split: sum.splits)
qed

section \<open>The loop on the page\<close>

lemma for_each_doc:
  "unique_ids s \<Longrightarrow> for_each (prune_anchor h P) as s = Normal s' \<Longrightarrow>
   document s' = fold (doc_step P) as (document s) \<and> unique_ids s' \<and>
   set (ids (heap s')) = set (ids (heap s)) \<and> console s' = console s"
proof (induction as arbitrary: s)
  case (Cons a as)
  from Cons.prems(2) obtain s1 where s1: "prune_anchor h P a s = Normal s1"
    and rest: "for_each (prune_anchor h P) as s1 = Normal s'"
    by (auto split: completion.splits)
  from prune_anchor_doc[OF Cons.prems(1) s1] Cons.IH[OF _ rest] show ?case by simp
qed simp

lemma for_each_quiet:
  "for_each (prune_anchor h P) as s = Normal s' \<Longrightarrow>
   for_each (prune_anchor (quiet h) P) as s = Normal s'"
proof (induction as arbitrary: s)
  case (Cons a as)
  from Cons.prems obtain s1 where s1: "prune_anchor h P a s = Normal s1"
    and rest: "for_each (prune_anchor h P) as s1 = Normal s'"
    by (auto split: completion.splits)
  from prune_anchor_quiet[OF s1] Cons.IH[OF rest] show ?case by simp
qed simp

lemma for_each_Abrupt:
  "for_each (prune_anchor h P) as s = Abrupt e s' \<Longrightarrow>
   \<exists>pre a suf. as = pre @ a # suf \<and> for_each (prune_anchor (quiet h) P) pre s = Normal s'"
proof (induction as arbitrary: s)
  case (Cons a as)
  show ?case
  proof (cases "prune_anchor h P a s")
    case (Normal s1)
    with Cons.prems have "for_each (prune_anchor h P) as s1 = Abrupt e s'" by simp
    from Cons.IH[OF this] obtain pre b suf where
      "as = pre @ b # suf" "for_each (prune_anchor (quiet h) P) pre s1 = Normal s'" by blast
    with prune_anchor_quiet[OF Normal] show ?thesis
      by (intro exI[of _ "a # pre"] exI[of _ b] exI[of _ suf]) simp
  next
    case (Abrupt e1 s1)
    with Cons.prems prune_anchor_Abrupt[OF Abrupt] show ?thesis
      by (intro exI[of _ "[]"] exI[of _ a] exI[of _ as]) simp
  qed
qed simp

lemma for_each_total:
  "conforming h \<Longrightarrow> unique_ids s \<Longrightarrow> set as \<subseteq> set (ids (heap s)) \<Longrightarrow>
   \<exists>s'. for_each (prune_anchor h P) as s = Normal s'"
proof (induction as arbitrary: s)
  case (Cons a as)
  from prune_anchor_total[OF Cons.prems(1), of a s P] Cons.prems(3)
  obtain s1 where s1: "prune_anchor h P a s = Normal s1" by auto
  from prune_anchor_doc[OF Cons.prems(2) s1] Cons.prems(3)
  have "unique_ids s1" "set as \<subseteq> set (ids (heap s1))" by auto
  from Cons.IH[OF Cons.prems(1) this] s1 show ?case by simp
qed simp

lemma for_each_noop:
  "\<forall>a\<in>set as. a \<in> set (ids (document s)) \<and> target P (document s) a = None \<Longrightarrow>
   for_each (prune_anchor h P) as s = Normal s \<or> (\<exists>e. for_each (prune_anchor h P) as s = Abrupt e s)"
proof (induction as)
  case (Cons a as)
  from Cons.prems have a: "a \<in> set (ids (document s))" "target P (document s) a = None" by auto
  from prune_anchor_noop(1)[OF a, of h] Cons.IH Cons.prems show ?case by auto
qed simp

lemma for_each_noop_conforming:
  "conforming h \<Longrightarrow>
   \<forall>a\<in>set as. a \<in> set (ids (document s)) \<and> target P (document s) a = None \<Longrightarrow>
   for_each (prune_anchor h P) as s = Normal s"
proof (induction as)
  case (Cons a as)
  from Cons.prems have a: "a \<in> set (ids (document s))" "target P (document s) a = None" by auto
  from prune_anchor_noop(2)[OF a Cons.prems(1)] Cons.IH Cons.prems show ?case by auto
qed simp

lemma select_in_ids: "a \<in> set (select sel up f) \<Longrightarrow> a \<in> set (ids f)"
  using select_subseq[of sel up f] by (auto dest: list_emb_set)

lemma remove_dashboard_and_groups_sweep: "remove_dashboard_and_groups h s = sweep h wanted1 s"
  by (simp add: remove_dashboard_and_groups_def sweep_def sidebar_anchors_def callback1_prune split: sum.splits)

lemma remove_dashboard_sweep: "remove_dashboard h s = sweep h wanted2 s"
  by (simp add: remove_dashboard_def sweep_def sidebar_anchors_def callback2_prune split: sum.splits)

lemma sweep_Normal:
  "sweep h P s = Normal s' \<Longrightarrow>
   for_each (prune_anchor (quiet h) P) (select sidebar_anchors [] (document s)) s = Normal s'"
  by (auto simp: sweep_def querySelectorAll_def forEach_def for_each_quiet split: if_splits)

lemma sweep_Abrupt:
  assumes "sweep h P s = Abrupt e s'"
  shows "\<exists>pre. prefix pre (select sidebar_anchors [] (document s)) \<and>
           for_each (prune_anchor (quiet h) P) pre s = Normal s'"
proof (cases "throws h (QuerySelectorAll sidebar_anchors) \<or> throws h ForEach")
  case True
  with assms have "s' = s"
    by (auto simp: sweep_def querySelectorAll_def forEach_def split: if_splits)
  then show ?thesis by (intro exI[of _ "[]"]) simp
next
  case False
  with assms have "for_each (prune_anchor h P) (select sidebar_anchors [] (document s)) s = Abrupt e s'"
    by (auto simp: sweep_def querySelectorAll_def forEach_def)
  from for_each_Abrupt[OF this] show ?thesis by (auto simp: prefix_def)
qed

lemma sweep_total:
  assumes "conforming h" "unique_ids s"
  shows "\<exists>s'. sweep h P s = Normal s'"
proof -
  have "set (select sidebar_anchors [] (document s)) \<subseteq> set (ids (heap s))"
    by (auto simp: ids_heap dest: select_in_ids)
  from for_each_total[OF assms this, of P] assms(1) show ?thesis
    by (auto simp: sweep_def querySelectorAll_def forEach_def conforming_def)
qed

lemma prefix_subseq: "prefix pre as \<Longrightarrow> subseq as l \<Longrightarrow> subseq pre l"
  using subseq_order.order_trans prefix_imp_subseq by blast

lemma run_prefix_doc:
  assumes u: "unique_ids s"
    and pre: "prefix pre (select sel [] (document s))"
    and run: "for_each (prune_anchor h P) pre s = Normal s'"
  shows "document s' = fold cut_out (targets P (document s) pre) (document s) \<and>
         unique_ids s' \<and> set (ids (heap s')) = set (ids (heap s)) \<and> console s' = console s"
proof -
  from u have d: "distinct (ids (document s))" by (simp add: unique_ids_def heap_def)
  from pre select_subseq[of sel "[]" "document s"] have "subseq pre (ids (document s))"
    by (rule prefix_subseq)
  from doc_loop_targets[OF d this, of P] for_each_doc[OF u run] show ?thesis by simp
qed

section \<open>The search for the list of the Exams section\<close>

lemma following_None: "following x f = None \<longleftrightarrow> x \<notin> set (ids f)"
  by (induction x f rule: following.induct) (auto split: option.splits)

lemma first_element_lookup:
  "first_element r = Some e \<Longrightarrow> \<exists>ks. lookup (nid e) r = Some (Element e ks)"
  by (induction r rule: first_element.induct) auto


lemma following_ids: "following x f = Some r \<Longrightarrow> set (ids r) \<subseteq> set (ids f)"
  by (induction x f rule: following.induct) (auto split: option.splits if_splits)

lemma find_exams_val:
  "conforming h \<Longrightarrow> set xs \<subseteq> set (ids (document s)) \<Longrightarrow>
   find_exams h xs s = Inr (find (is_exams_header (document s)) xs)"
proof (induction xs)
  case (Cons x xs)
  from Cons.prems(2) obtain n where n: "lookup x (document s) = Some n"
    using lookup_None[of x "document s"] by auto
  with Cons show ?case
    by (auto simp: textContent_def conforming_def lookup_heap is_exams_header_def)
qed simp

lemma querySelector_val:
  "conforming h \<Longrightarrow> querySelector h (Simple (Class ''nav-sidebar'')) s = Inr (first_sidebar (document s))"
  by (simp add: querySelector_def conforming_def first_sidebar_def)


lemma exams_ul_total:
  assumes c: "conforming h"
  shows "\<exists>u. exams_ul h s = Inr u"
proof -
  let ?D = "document s"
  let ?hs = "select sidebar_headers [] ?D"
  from c have nt: "\<And>c. \<not> throws h c" by (simp add: conforming_def)
  have q: "querySelectorAll h (Descendant (Class ''nav-sidebar'') (Class ''nav-header'')) s = Inr ?hs"
    by (simp add: querySelectorAll_def nt sidebar_headers_def)
  have "set ?hs \<subseteq> set (ids ?D)" by (auto dest: select_in_ids)
  from find_exams_val[OF c this] have f: "find_exams h ?hs s = Inr (find (is_exams_header ?D) ?hs)" .
  show ?thesis
  proof (cases "find (is_exams_header ?D) ?hs")
    case None
    with q f show ?thesis
      by (simp add: exams_ul_def querySelector_val[OF c])
  next
    case (Some x)
    then have "x \<in> set ?hs" by (auto simp: find_Some_iff)
    then have x: "x \<in> set (ids ?D)" by (rule select_in_ids)
    then obtain r where r: "following x ?D = Some r" using following_None[of x ?D] by auto
    then have nx: "nextElementSibling h x s = Inr (map_option nid (first_element r))"
      by (simp add: nextElementSibling_def nt)
    show ?thesis
    proof (cases "first_element r")
      case None
      with q f Some r nx show ?thesis
        by (simp add: exams_ul_def querySelector_val[OF c])
    next
      case (Some e)
      from first_element_lookup[OF Some] obtain ks where "lookup (nid e) r = Some (Element e ks)" ..
      then have "nid e \<in> set (ids r)" using lookup_None[of "nid e" r] by auto
      with following_ids[OF r] have "nid e \<in> set (ids (heap s))" by (auto simp: ids_heap)
      then obtain m where "lookup (nid e) (heap s) = Some m" using lookup_None[of "nid e" "heap s"] by auto
      with lookup_Some[OF this] obtain b where "classList_contains h (nid e) ''nav-treeview'' s = Inr b"
        by (auto simp: classList_contains_def nt)
      with q f \<open>find (is_exams_header ?D) ?hs = Some x\<close> r nx Some show ?thesis
        by (cases b) (simp_all add: exams_ul_def querySelector_val[OF c])
    qed
  qed
qed

section \<open>The handlers\<close>

lemma handler1_shape:
  "\<exists>s0. (sweep h wanted1 s = Normal s0 \<or> (\<exists>e. sweep h wanted1 s = Abrupt e s0)) \<and>
     (handler1 h s = Normal s0 \<or>
      (\<exists>e. handler1 h s = Normal (console_warn ''Sidebar customization failed'' e s0)))"
  by (cases "sweep h wanted1 s")
     (auto simp: handler1_def handler1_body_def remove_dashboard_and_groups_sweep Let_def
           split: sum.splits)

lemma handler2_shape:
  "\<exists>s0. (sweep h wanted2 s = Normal s0 \<or> (\<exists>e. sweep h wanted2 s = Abrupt e s0)) \<and>
     (handler2 h s = Normal s0 \<or>
      (\<exists>e. handler2 h s = Normal (console_warn ''Sidebar customization failed'' e s0)))"
  by (cases "sweep h wanted2 s") (auto simp: handler2_def remove_dashboard_sweep)

lemma handler1_conforming:
  "conforming h \<Longrightarrow> sweep h wanted1 s = Normal s0 \<Longrightarrow> handler1 h s = Normal s0"
  using exams_ul_total[of h s0]
  by (auto simp: handler1_def handler1_body_def remove_dashboard_and_groups_sweep Let_def)

lemma handler2_conforming:
  "sweep h wanted2 s = Normal s0 \<Longrightarrow> handler2 h s = Normal s0"
  by (auto simp: handler2_def remove_dashboard_sweep)

lemma sweep_noop:
  assumes "\<forall>a\<in>set (select sidebar_anchors [] (document s)). target P (document s) a = None"
  shows "sweep h P s = Normal s \<or> (\<exists>e. sweep h P s = Abrupt e s)"
    and "conforming h \<Longrightarrow> sweep h P s = Normal s"
proof -
  let ?A = "select sidebar_anchors [] (document s)"
  from assms have a: "\<forall>a\<in>set ?A. a \<in> set (ids (document s)) \<and> target P (document s) a = None"
    by (auto dest: select_in_ids)
  from for_each_noop[OF a, of h]
  show "sweep h P s = Normal s \<or> (\<exists>e. sweep h P s = Abrupt e s)"
    by (auto simp: sweep_def querySelectorAll_def forEach_def)
  assume c: "conforming h"
  from for_each_noop_conforming[OF c a] c show "sweep h P s = Normal s"
    by (auto simp: sweep_def querySelectorAll_def forEach_def conforming_def)
qed

lemma conforming_std_host: "conforming std_host"
  by (simp add: conforming_def std_host_def)

lemma sweep_result:
  assumes u: "unique_ids s"
    and r: "sweep h P s = Normal s0 \<or> sweep h P s = Abrupt e s0"
  shows "\<exists>pre. prefix pre (select sidebar_anchors [] (document s)) \<and>
           document s0 = fold cut_out (targets P (document s) pre) (document s) \<and>
           unique_ids s0 \<and> console s0 = console s"
proof -
  from r sweep_Normal[of h P s s0] sweep_Abrupt[of h P s e s0]
  obtain pre where pre: "prefix pre (select sidebar_anchors [] (document s))"
    and run: "for_each (prune_anchor (quiet h) P) pre s = Normal s0"
    by blast
  from run_prefix_doc[OF u pre run] pre show ?thesis by blast
qed

lemma sweep_result_Normal:
  assumes u: "unique_ids s" and r: "sweep h P s = Normal s0"
  shows "document s0 =
           fold cut_out (targets P (document s) (select sidebar_anchors [] (document s))) (document s) \<and>
         unique_ids s0 \<and> console s0 = console s"
  using run_prefix_doc[OF u _ sweep_Normal[OF r], of sidebar_anchors] by simp

lemma closest_on_None:
  "closest_on (Simple x) p = None \<longleftrightarrow> (\<forall>e\<in>set p. \<not> matches_simple x e)"
  by (induction p) auto

lemma no_item_survives:
  assumes d: "distinct (ids D)"
    and a: "a \<in> set (ids D)"
    and n: "closest_on list_item (anc a D) = None"
  shows "a \<in> set (ids (fold cut_out (targets P D as) D))"
proof -
  have "set (targets P D as) \<inter> nid ` set (anc a D) = {}"
  proof (rule ccontr)
    assume "set (targets P D as) \<inter> nid ` set (anc a D) \<noteq> {}"
    then obtain t et where t: "t \<in> set (targets P D as)" "et \<in> set (anc a D)" "nid et = t" by auto
    from t(1) obtain b where "target P D b = Some t" by (auto simp: in_targets)
    from target_li_anc[OF this] obtain e' where
      e': "e' \<in> set (anc b D)" "nid e' = t" "localName e' = ''li''" by auto
    from anc_elem_unique[OF d t(2) e'(1)] t(3) e'(2) have "et = e'" by simp
    with e'(3) t(2) n show False by (auto simp: closest_on_None list_item_def)
  qed
  with a show ?thesis by (simp add: ids_fold_cut_out[OF d])
qed

lemma sweep_keeps_anchor:
  assumes u: "unique_ids s"
    and a: "a \<in> set (ids (document s))"
    and n: "closest_on list_item (anc a (document s)) = None"
    and r: "sweep h P s = Normal s0 \<or> sweep h P s = Abrupt e s0"
  shows "a \<in> set (ids (document s0)) \<and> closest_on list_item (anc a (document s0)) = None \<and>
         unique_ids s0"
proof -
  from u have d: "distinct (ids (document s))" by (simp add: unique_ids_def heap_def)
  from sweep_result[OF u r] obtain pre where
    doc: "document s0 = fold cut_out (targets P (document s) pre) (document s)"
    and u0: "unique_ids s0" by blast
  from no_item_survives[OF d a n, of P pre] doc have in0: "a \<in> set (ids (document s0))" by simp
  with anc_fold_cut_out[OF d, of a "targets P (document s) pre"] doc n u0 show ?thesis by simp
qed

lemma handler1_keeps_anchor:
  assumes u: "unique_ids s"
    and a: "a \<in> set (ids (document s))"
    and n: "closest_on list_item (anc a (document s)) = None"
  shows "\<exists>s'. handler1 h s = Normal s' \<and> a \<in> set (ids (document s')) \<and>
           closest_on list_item (anc a (document s')) = None \<and> unique_ids s'"
proof -
  from handler1_shape[of h s] obtain s0 where
    sw: "sweep h wanted1 s = Normal s0 \<or> (\<exists>e. sweep h wanted1 s = Abrupt e s0)"
    and h1: "handler1 h s = Normal s0 \<or>
      (\<exists>e. handler1 h s = Normal (console_warn ''Sidebar customization failed'' e s0))" by blast
  from sw obtain e where "sweep h wanted1 s = Normal s0 \<or> sweep h wanted1 s = Abrupt e s0" by blast
  from sweep_keeps_anchor[OF u a n this] h1 show ?thesis
    by (auto simp: console_warn_def unique_ids_def heap_def)
qed

lemma handler2_keeps_anchor:
  assumes u: "unique_ids s"
    and a: "a \<in> set (ids (document s))"
    and n: "closest_on list_item (anc a (document s)) = None"
  shows "\<exists>s'. handler2 h s = Normal s' \<and> a \<in> set (ids (document s')) \<and>
           closest_on list_item (anc a (document s')) = None \<and> unique_ids s'"
proof -
  from handler2_shape[of h s] obtain s0 where
    sw: "sweep h wanted2 s = Normal s0 \<or> (\<exists>e. sweep h wanted2 s = Abrupt e s0)"
    and h1: "handler2 h s = Normal s0 \<or>
      (\<exists>e. handler2 h s = Normal (console_warn ''Sidebar customization failed'' e s0))" by blast
  from sw obtain e where "sweep h wanted2 s = Normal s0 \<or> sweep h wanted2 s = Abrupt e s0" by blast
  from sweep_keeps_anchor[OF u a n this] h1 show ?thesis
    by (auto simp: console_warn_def unique_ids_def heap_def)
qed

lemma target_without_item:
  "closest_on list_item (anc a D) = None \<Longrightarrow> target P D a = None"
  by (simp add: target_def split: option.splits)

lemma select_descendant_empty:
  "select (Simple c) up f = [] \<Longrightarrow> \<not> list_ex (matches_simple c) up \<Longrightarrow>
   select (Descendant c y) up f = []"
  by (induction f arbitrary: up rule: ids.induct) (auto split: if_splits)

lemma handler1_no_sidebar:
  assumes "select (Simple (Class ''nav-sidebar'')) [] (document s) = []"
  shows "(\<exists>s'. handler1 h s = Normal s' \<and> document s' = document s \<and> detached s' = detached s) \<and>
         (conforming h \<longrightarrow> handler1 h s = Normal s)"
proof -
  from select_descendant_empty[OF assms]
  have "select sidebar_anchors [] (document s) = []" by (simp add: sidebar_anchors_def)
  then have t: "\<forall>a\<in>set (select sidebar_anchors [] (document s)). target wanted1 (document s) a = None"
    by simp
  have "\<exists>s'. handler1 h s = Normal s' \<and> document s' = document s \<and> detached s' = detached s"
    using handler1_shape[of h s] sweep_noop(1)[OF t, of h] by (auto simp: console_warn_def)
  moreover have "handler1 h s = Normal s" if c: "conforming h"
    using handler1_conforming[OF c sweep_noop(2)[OF t c]] .
  ultimately show ?thesis by blast
qed

lemma handler1_caught:
  "\<exists>s0 pre. prefix pre (select sidebar_anchors [] (document s)) \<and>
     for_each (callback1 (quiet h)) pre s = Normal s0 \<and>
     ((pre = select sidebar_anchors [] (document s) \<and> handler1 h s = Normal s0) \<or>
      (\<exists>e. handler1 h s = Normal (console_warn ''Sidebar customization failed'' e s0)))"
proof (cases "sweep h wanted1 s")
  case (Normal s0)
  from sweep_Normal[OF Normal]
  have "for_each (callback1 (quiet h)) (select sidebar_anchors [] (document s)) s = Normal s0"
    by (simp add: callback1_prune)
  moreover from Normal have "handler1 h s = Normal s0 \<or>
      (\<exists>e. handler1 h s = Normal (console_warn ''Sidebar customization failed'' e s0))"
    by (auto simp: handler1_def handler1_body_def remove_dashboard_and_groups_sweep Let_def
             split: sum.splits)
  ultimately show ?thesis by blast
next
  case (Abrupt e s0)
  from sweep_Abrupt[OF Abrupt] obtain pre where
    "prefix pre (select sidebar_anchors [] (document s))"
    "for_each (callback1 (quiet h)) pre s = Normal s0"
    by (auto simp: callback1_prune)
  moreover from Abrupt have
    "handler1 h s = Normal (console_warn ''Sidebar customization failed'' e s0)"
    by (simp add: handler1_def handler1_body_def remove_dashboard_and_groups_sweep)
  ultimately show ?thesis by blast
qed

lemma handler2_caught:
  "\<exists>s0 pre. prefix pre (select sidebar_anchors [] (document s)) \<and>
     for_each (callback2 (quiet h)) pre s = Normal s0 \<and>
     ((pre = select sidebar_anchors [] (document s) \<and> handler2 h s = Normal s0) \<or>
      (\<exists>e. handler2 h s = Normal (console_warn ''Sidebar customization failed'' e s0)))"
proof (cases "sweep h wanted2 s")
  case (Normal s0)
  from sweep_Normal[OF Normal]
  have "for_each (callback2 (quiet h)) (select sidebar_anchors [] (document s)) s = Normal s0"
    by (simp add: callback2_prune)
  moreover from Normal have "handler2 h s = Normal s0"
    by (simp add: handler2_def remove_dashboard_sweep)
  ultimately show ?thesis by blast
next
  case (Abrupt e s0)
  from sweep_Abrupt[OF Abrupt] obtain pre where
    "prefix pre (select sidebar_anchors [] (document s))"
    "for_each (callback2 (quiet h)) pre s = Normal s0"
    by (auto simp: callback2_prune)
  moreover from Abrupt have
    "handler2 h s = Normal (console_warn ''Sidebar customization failed'' e s0)"
    by (simp add: handler2_def remove_dashboard_sweep)
  ultimately show ?thesis by blast
qed

lemma each_handler_returns:
  "\<exists>s1 s2. handler1 h s = Normal s1 \<and> handler2 h s1 = Normal s2 \<and> DOMContentLoaded h s = s2"
proof -
  from handler1_shape[of h s] obtain s1 where s1: "handler1 h s = Normal s1" by blast
  from handler2_shape[of h s1] obtain s2 where s2: "handler2 h s1 = Normal s2" by blast
  from s1 s2 show ?thesis by (simp add: DOMContentLoaded_def listeners_def)
qed

section \<open>Evaluation on given pages\<close>

lemmas string_defs = normalized_def trim_def toLowerCase_def is_js_space_def lower_unit_def
  char_of_eq_iff

lemmas call_defs = querySelectorAll_def querySelector_def forEach_def textContent_def
  closest_def remove_def nextElementSibling_def classList_contains_def console_warn_def heap_def

lemmas script_defs = handler1_def handler1_body_def handler2_def
  remove_dashboard_and_groups_def remove_dashboard_def callback1_def callback2_def exams_ul_def
  DOMContentLoaded_def listeners_def Let_def

lemmas page_defs = page_def el_def std_host_def

lemma two_items_handler1:
  "handler1 numb_host (page two_items) =
     Normal \<lparr>document = [el 0 ''html'' [] [el 1 ''body'' [] [el 2 ''ul'' [''nav-sidebar'']
                 [el 5 ''li'' [] [el 6 ''a'' [] [Text ''Groups'']]]]]],
             detached = [el 3 ''li'' [] [el 4 ''a'' [] [Text ''Dashboard'']]],
             console = [(''Sidebar customization failed'', HostError (TextContent 6))]\<rparr>"
  by (simp add: script_defs call_defs page_defs string_defs two_items_def numb_host_def)

lemma remove_console: "remove h l (s\<lparr>console := c\<rparr>) = on_console c (remove h l s)"
  by (simp add: remove_def on_console_def split: option.splits)

lemma prune_anchor_console:
  "prune_anchor h P a (s\<lparr>console := c\<rparr>) = on_console c (prune_anchor h P a s)"
  by (simp add: prune_anchor_def textContent_def closest_def heap_def remove_console
        split: sum.splits option.splits)
     (simp add: on_console_def)

lemma for_each_console:
  "for_each (prune_anchor h P) as (s\<lparr>console := c\<rparr>) = on_console c (for_each (prune_anchor h P) as s)"
proof (induction as arbitrary: s)
  case (Cons a as)
  show ?case
  proof (cases "prune_anchor h P a s")
    case (Normal s1)
    with Cons[of s1] show ?thesis by (simp add: prune_anchor_console on_console_def)
  next
    case (Abrupt e s1)
    then show ?thesis by (simp add: prune_anchor_console on_console_def)
  qed
qed (simp add: on_console_def)

lemma sweep_console: "sweep h P (s\<lparr>console := c\<rparr>) = on_console c (sweep h P s)"
  by (simp add: sweep_def querySelectorAll_def forEach_def for_each_console)
     (simp add: on_console_def)

lemma handler2_same_tree:
  assumes "document t = document s" "detached t = detached s"
  shows "\<exists>s' t'. handler2 h s = Normal s' \<and> handler2 h t = Normal t' \<and>
           document t' = document s' \<and> detached t' = detached s'"
proof -
  from assms have t: "t = s\<lparr>console := console t\<rparr>" by simp
  have "handler2 h (s\<lparr>console := console t\<rparr>) =
          (case sweep h wanted2 s of
             Normal s' \<Rightarrow> Normal (s'\<lparr>console := console t\<rparr>)
           | Abrupt e s' \<Rightarrow>
               Normal (console_warn ''Sidebar customization failed'' e (s'\<lparr>console := console t\<rparr>)))"
    by (cases "sweep h wanted2 s")
       (simp_all add: handler2_def remove_dashboard_sweep sweep_console on_console_def)
  with t have "handler2 h t =
          (case sweep h wanted2 s of
             Normal s' \<Rightarrow> Normal (s'\<lparr>console := console t\<rparr>)
           | Abrupt e s' \<Rightarrow>
               Normal (console_warn ''Sidebar customization failed'' e (s'\<lparr>console := console t\<rparr>)))"
    by simp
  then show ?thesis
    by (cases "sweep h wanted2 s")
       (simp_all add: handler2_def remove_dashboard_sweep console_warn_def)
qed

lemma handler1_same_tree:
  "\<exists>s1 s2. handler1 h s = Normal s1 \<and> handler1_without_appender h s = Normal s2 \<and>
     document s1 = document s2 \<and> detached s1 = detached s2"
  by (cases "remove_dashboard_and_groups h s")
     (auto simp: handler1_def handler1_body_def handler1_without_appender_def Let_def console_warn_def
           split: sum.splits)

lemma handler1_same_conforming:
  "conforming h \<Longrightarrow> handler1 h s = handler1_without_appender h s"
proof (cases "remove_dashboard_and_groups h s")
  case (Normal s1)
  assume "conforming h"
  from exams_ul_total[OF this, of s1] Normal show ?thesis
    by (auto simp: handler1_def handler1_body_def handler1_without_appender_def Let_def)
next
  case (Abrupt e s1)
  then show ?thesis
    by (simp add: handler1_def handler1_body_def handler1_without_appender_def)
qed

lemma remove_ids_subset:
  "remove h l s = Normal s' \<Longrightarrow> set (ids (document s')) \<subseteq> set (ids (document s))"
  by (auto simp: remove_def split: if_splits option.splits dest: ids_cut_out_subset)

lemma prune_anchor_ids_subset:
  "prune_anchor h P a s = Normal s' \<Longrightarrow> set (ids (document s')) \<subseteq> set (ids (document s))"
  by (auto simp: prune_anchor_def split: sum.splits if_splits option.splits dest!: remove_ids_subset)

lemma for_each_ids_subset:
  "for_each (prune_anchor h P) as s = Normal s' \<Longrightarrow>
   set (ids (document s')) \<subseteq> set (ids (document s))"
proof (induction as arbitrary: s)
  case (Cons a as)
  from Cons.prems obtain s1 where s1: "prune_anchor h P a s = Normal s1"
    and rest: "for_each (prune_anchor h P) as s1 = Normal s'"
    by (auto split: completion.splits)
  from prune_anchor_ids_subset[OF s1] Cons.IH[OF rest] show ?case by blast
qed simp

lemma handler_ids_subset:
  "handler1 h s = Normal s' \<Longrightarrow> set (ids (document s')) \<subseteq> set (ids (document s))"
  "handler2 h s = Normal s' \<Longrightarrow> set (ids (document s')) \<subseteq> set (ids (document s))"
proof -
  assume "handler1 h s = Normal s'"
  with handler1_caught[of s h] obtain s0 pre where
    "for_each (callback1 (quiet h)) pre s = Normal s0" "document s' = document s0"
    by (auto simp: console_warn_def)
  with for_each_ids_subset[of "quiet h" wanted1 pre s s0]
  show "set (ids (document s')) \<subseteq> set (ids (document s))" by (simp add: callback1_prune)
next
  assume "handler2 h s = Normal s'"
  with handler2_caught[of s h] obtain s0 pre where
    "for_each (callback2 (quiet h)) pre s = Normal s0" "document s' = document s0"
    by (auto simp: console_warn_def)
  with for_each_ids_subset[of "quiet h" wanted2 pre s s0]
  show "set (ids (document s')) \<subseteq> set (ids (document s))" by (simp add: callback2_prune)
qed

section \<open>The test on the text\<close>

lemma lower_unit_space: "is_js_space c \<Longrightarrow> lower_unit c = c"
  by (auto simp: is_js_space_def lower_unit_def)

lemma trim_decomp:
  "\<exists>ws1 ws2. x = ws1 @ trim x @ ws2 \<and> list_all is_js_space ws1 \<and> list_all is_js_space ws2"
proof -
  let ?y = "dropWhile is_js_space x"
  have "x = takeWhile is_js_space x @ ?y" by simp
  moreover have "?y = trim x @ rev (takeWhile is_js_space (rev ?y))"
  proof -
    have "rev (dropWhile is_js_space (rev ?y)) @ rev (takeWhile is_js_space (rev ?y)) =
          rev (takeWhile is_js_space (rev ?y) @ dropWhile is_js_space (rev ?y))"
      by (simp only: rev_append)
    also have "\<dots> = rev (rev ?y)" by (simp only: takeWhile_dropWhile_id)
    also have "\<dots> = ?y" by simp
    finally show ?thesis by (simp add: trim_def)
  qed
  moreover have "list_all is_js_space (takeWhile is_js_space x)"
    by (simp add: list_all_iff) (meson set_takeWhileD)
  moreover have "list_all is_js_space (rev (takeWhile is_js_space (rev ?y)))"
    by (simp add: list_all_iff) (meson set_takeWhileD)
  ultimately show ?thesis by metis
qed

lemma trim_sandwich:
  assumes "core \<noteq> []" "\<not> is_js_space (hd core)" "\<not> is_js_space (last core)"
    and "list_all is_js_space ws1" "list_all is_js_space ws2"
  shows "trim (ws1 @ core @ ws2) = core"
proof -
  from assms(4) have "dropWhile is_js_space (ws1 @ core @ ws2) = dropWhile is_js_space (core @ ws2)"
    using dropWhile_append2[of ws1 is_js_space "core @ ws2"] by (simp add: list_all_iff)
  also from assms(1,2) have "\<dots> = core @ ws2" by (cases core) auto
  finally have a: "dropWhile is_js_space (ws1 @ core @ ws2) = core @ ws2" .
  from assms(5) have "dropWhile is_js_space (rev ws2 @ rev core) = dropWhile is_js_space (rev core)"
    using dropWhile_append2[of "rev ws2" is_js_space "rev core"] by (simp add: list_all_iff)
  also from assms(1,3) have "\<dots> = rev core"
    by (cases core rule: rev_cases) auto
  finally show ?thesis using a by (simp add: trim_def)
qed

lemma toLowerCase_ends:
  assumes "toLowerCase core = l" "l \<noteq> []" "\<not> is_js_space (hd l)" "\<not> is_js_space (last l)"
  shows "core \<noteq> [] \<and> \<not> is_js_space (hd core) \<and> \<not> is_js_space (last core)"
proof -
  from assms(1,2) have ne: "core \<noteq> []" by (auto simp: toLowerCase_def)
  from assms(1) ne have "hd l = lower_unit (hd core)" "last l = lower_unit (last core)"
    by (auto simp: toLowerCase_def hd_map last_map)
  with assms(3,4) ne show ?thesis using lower_unit_space by metis
qed

lemma normalized_iff:
  assumes "l \<noteq> []" "\<not> is_js_space (hd l)" "\<not> is_js_space (last l)"
  shows "normalized x = l \<longleftrightarrow>
         (\<exists>ws1 core ws2. x = ws1 @ core @ ws2 \<and> list_all is_js_space ws1 \<and>
            list_all is_js_space ws2 \<and> toLowerCase core = l)"
proof
  assume "normalized x = l"
  with trim_decomp[of x] show "\<exists>ws1 core ws2. x = ws1 @ core @ ws2 \<and> list_all is_js_space ws1 \<and>
            list_all is_js_space ws2 \<and> toLowerCase core = l"
    by (auto simp: normalized_def)
next
  assume "\<exists>ws1 core ws2. x = ws1 @ core @ ws2 \<and> list_all is_js_space ws1 \<and>
            list_all is_js_space ws2 \<and> toLowerCase core = l"
  then obtain ws1 core ws2 where x: "x = ws1 @ core @ ws2" "list_all is_js_space ws1"
    "list_all is_js_space ws2" "toLowerCase core = l" by blast
  from toLowerCase_ends[OF x(4) assms] trim_sandwich[OF _ _ _ x(2,3)] x(1,4)
  show "normalized x = l" by (simp add: normalized_def)
qed

lemma wanted1_iff:
  "wanted1 (normalized x) \<longleftrightarrow>
     (\<exists>ws1 core ws2. x = ws1 @ core @ ws2 \<and> list_all is_js_space ws1 \<and>
        list_all is_js_space ws2 \<and>
        (toLowerCase core = ''dashboard'' \<or> toLowerCase core = ''groups''))"
proof -
  have d: "normalized x = ''dashboard'' \<longleftrightarrow>
         (\<exists>ws1 core ws2. x = ws1 @ core @ ws2 \<and> list_all is_js_space ws1 \<and>
            list_all is_js_space ws2 \<and> toLowerCase core = ''dashboard'')"
    by (rule normalized_iff) (simp_all add: is_js_space_def)
  have g: "normalized x = ''groups'' \<longleftrightarrow>
         (\<exists>ws1 core ws2. x = ws1 @ core @ ws2 \<and> list_all is_js_space ws1 \<and>
            list_all is_js_space ws2 \<and> toLowerCase core = ''groups'')"
    by (rule normalized_iff) (simp_all add: is_js_space_def)
  show ?thesis unfolding wanted1_def d g by blast
qed

lemma callback_on_item:
  assumes c: "conforming h" and u: "unique_ids s"
    and n: "lookup a (document s) = Some n"
    and e: "closest_on list_item (anc a (document s)) = Some e"
  shows "\<exists>s'. prune_anchor h P a s = Normal s' \<and>
           (a \<in> set (ids (document s')) \<longleftrightarrow> \<not> P (normalized (textData [n]))) \<and>
           (nid e \<in> set (ids (document s')) \<longleftrightarrow> \<not> P (normalized (textData [n])))"
proof -
  from u have d: "distinct (ids (document s))" by (simp add: unique_ids_def heap_def)
  from n have a: "a \<in> set (ids (document s))" using lookup_None[of a "document s"] by auto
  then have "a \<in> set (ids (heap s))" by (simp add: ids_heap)
  from prune_anchor_total[OF c this, of P] obtain s' where s': "prune_anchor h P a s = Normal s'"
    by blast
  from prune_anchor_doc[OF u s'] have doc: "document s' = doc_step P a (document s)" by simp
  from closest_on_in[OF e] have ea: "e \<in> set (anc a (document s))" .
  then have ein: "nid e \<in> set (ids (document s))" by (rule anc_ids)
  from anc_hd[OF ein] have "nid e \<in> nid ` set (anc (nid e) (document s))" by force
  with ea a ein n e doc s' show ?thesis
    by (auto simp: doc_step_def target_def ids_cut_out[OF d])
qed

lemma handler1_std:
  assumes c: "conforming h" and u: "unique_ids s"
  shows "\<exists>s'. handler1 h s = Normal s' \<and> console s' = console s \<and> unique_ids s' \<and>
           document s' =
             fold cut_out (targets wanted1 (document s) (select sidebar_anchors [] (document s)))
               (document s)"
proof -
  from sweep_total[OF c u, of wanted1] obtain s' where s': "sweep h wanted1 s = Normal s'" by blast
  from handler1_conforming[OF c s'] sweep_result_Normal[OF u s'] show ?thesis by simp
qed

lemma target_wanted1:
  "target wanted1 D a = Some l \<longleftrightarrow>
     (\<exists>n e. lookup a D = Some n \<and>
        (normalized (textData [n]) = ''dashboard'' \<or> normalized (textData [n]) = ''groups'') \<and>
        closest_on list_item (anc a D) = Some e \<and> nid e = l)"
  by (auto simp: target_def wanted1_def split: option.splits)

section \<open>A second run\<close>

lemma select_cut_out_subset: "x \<in> set (select sel up (cut_out j f)) \<Longrightarrow> x \<in> set (select sel up f)"
  by (induction sel up f rule: select.induct) (auto split: if_splits)

lemma select_fold_cut_out_subset:
  "x \<in> set (select sel up (fold cut_out ts f)) \<Longrightarrow> x \<in> set (select sel up f)"
  by (induction ts arbitrary: f) (auto dest: select_cut_out_subset)

lemma select_matches:
  "distinct (ids f) \<Longrightarrow> a \<in> set (select sel up f) \<Longrightarrow> matches sel (anc a f @ up)"
proof (induction sel up f rule: select.induct)
  case (2 sel up e ks ns)
  from "2.prems"(2) consider
    (here) "a = nid e" "matches sel (e # up)"
    | (below) "a \<in> set (select sel (e # up) ks)"
    | (after) "a \<in> set (select sel up ns)"
    by (auto split: if_splits)
  then show ?case
  proof cases
    case here
    then show ?thesis by simp
  next
    case below
    then have "a \<in> set (ids ks)" by (rule select_in_ids)
    with "2.prems"(1) "2.IH"(1)[OF _ below] show ?thesis by auto
  next
    case after
    then have "a \<in> set (ids ns)" by (rule select_in_ids)
    with "2.prems"(1) "2.IH"(2)[OF _ after] show ?thesis by auto
  qed
qed auto

lemma sidebar_anchor_name:
  assumes "distinct (ids D)" "a \<in> set (select sidebar_anchors [] D)"
  shows "\<exists>e up. anc a D = e # up \<and> nid e = a \<and> localName e = ''a''"
proof -
  from assms(2) have "a \<in> set (ids D)" by (rule select_in_ids)
  from anc_hd[OF this] obtain e up where e: "anc a D = e # up" "nid e = a" by blast
  with select_matches[OF assms] show ?thesis by (simp add: sidebar_anchors_def)
qed

lemma no_item_in_anchorD:
  assumes "no_item_in_anchor D" "anc t D = e # up" "localName e = ''li''" "u \<in> set up"
  shows "localName u \<noteq> ''a''"
proof -
  from assms(2) have "t \<in> set (ids D)" using anc_empty[of t D] by auto
  with assms(1,2,3) have "\<not> list_ex (\<lambda>u. localName u = ''a'') up"
    by (auto simp: no_item_in_anchor_def list_all_iff)
  with assms(4) show ?thesis by (auto simp: list_ex_iff)
qed

lemma anchors_keep_text:
  assumes d: "distinct (ids D)"
    and ni: "no_item_in_anchor D"
    and a: "a \<in> set (select sidebar_anchors [] D)"
    and t: "target P D b = Some t"
  shows "a \<notin> nid ` set (anc t D)"
proof
  assume "a \<in> nid ` set (anc t D)"
  then obtain ea where ea: "ea \<in> set (anc t D)" "nid ea = a" by auto
  from sidebar_anchor_name[OF d a] obtain e0 up0 where
    e0: "anc a D = e0 # up0" "nid e0 = a" "localName e0 = ''a''" by blast
  then have "e0 \<in> set (anc a D)" by simp
  from anc_elem_unique[OF d ea(1) this] ea(2) e0(2) have same: "ea = e0" by simp
  from target_li[OF t] obtain et p q where
    et: "anc b D = p @ et # q" "nid et = t" "localName et = ''li''" by blast
  from anc_suffix[OF d et(1)] et(2) have at: "anc t D = et # q" by simp
  with ea(1) same e0(3) et(3) have "e0 \<in> set q" by auto
  from no_item_in_anchorD[OF ni at et(3) this] e0(3) show False by simp
qed

lemma second_pass_idle:
  assumes d: "distinct (ids D)"
    and ni: "no_item_in_anchor D"
    and a: "a \<in> set (select sidebar_anchors [] (fold cut_out (targets P D (select sidebar_anchors [] D)) D))"
  shows "target P (fold cut_out (targets P D (select sidebar_anchors [] D)) D) a = None"
proof -
  let ?A = "select sidebar_anchors [] D"
  let ?ts = "targets P D ?A"
  let ?D1 = "fold cut_out ?ts D"
  from a have in1: "a \<in> set (ids ?D1)" by (rule select_in_ids)
  from a have inA: "a \<in> set ?A" by (rule select_fold_cut_out_subset)
  have "\<forall>t\<in>set ?ts. a \<notin> nid ` set (anc t D)"
  proof
    fix t assume "t \<in> set ?ts"
    then obtain b where "target P D b = Some t" by (auto simp: in_targets)
    then show "a \<notin> nid ` set (anc t D)" by (rule anchors_keep_text[OF d ni inA])
  qed
  from lookup_fold_cut_out[OF d in1 this] anc_fold_cut_out[OF d in1]
  have same: "target P ?D1 a = target P D a" by (simp add: target_def split: option.splits)
  show ?thesis
  proof (cases "target P D a")
    case None
    with same show ?thesis by simp
  next
    case (Some l)
    from target_li_anc[OF Some] obtain e where "e \<in> set (anc a D)" "nid e = l" by blast
    moreover from Some inA have "l \<in> set ?ts" by (auto simp: in_targets)
    ultimately have "a \<notin> set (ids ?D1)" using ids_fold_cut_out[OF d, of a ?ts] by auto
    with in1 show ?thesis by simp
  qed
qed

section \<open>The first list of the sidebar\<close>






section \<open>The two passes of one event\<close>

lemma handler2_std:
  assumes c: "conforming h" and u: "unique_ids s"
  shows "\<exists>s'. handler2 h s = Normal s' \<and> console s' = console s \<and> unique_ids s' \<and>
           document s' =
             fold cut_out (targets wanted2 (document s) (select sidebar_anchors [] (document s)))
               (document s)"
proof -
  from sweep_total[OF c u, of wanted2] obtain s' where s': "sweep h wanted2 s = Normal s'" by blast
  from handler2_conforming[OF s'] sweep_result_Normal[OF u s'] show ?thesis by simp
qed

lemma target_wanted2_None: "target wanted1 D a = None \<Longrightarrow> target wanted2 D a = None"
  by (auto simp: target_def wanted1_def wanted2_def split: option.splits if_splits)

lemma query_throws_twice:
  assumes "throws h (QuerySelectorAll sidebar_anchors)"
  shows "DOMContentLoaded h s =
     s\<lparr>console := console s @
          [(''Sidebar customization failed'', HostError (QuerySelectorAll sidebar_anchors)),
           (''Sidebar customization failed'', HostError (QuerySelectorAll sidebar_anchors))]\<rparr>"
  using assms
  by (simp add: DOMContentLoaded_def listeners_def handler1_def handler1_body_def handler2_def
        remove_dashboard_and_groups_def remove_dashboard_def querySelectorAll_def
        sidebar_anchors_def console_warn_def)

lemma wanted_labels:
  "wanted1 = (\<lambda>t. t = ''dashboard'' \<or> t = ''groups'')" "wanted2 = (\<lambda>t. t = ''dashboard'')"
  by (simp_all add: fun_eq_iff wanted1_def wanted2_def)

lemma event_two_passes:
  assumes c: "conforming h" and u: "unique_ids s"
  shows "\<exists>s1 s2. handler1 h s = Normal s1 \<and> handler2 h s1 = Normal s2 \<and>
          DOMContentLoaded h s = s2 \<and>
          document s1 =
            fold cut_out (targets wanted1 (document s) (select sidebar_anchors [] (document s)))
              (document s) \<and>
          document s2 =
            fold cut_out (targets wanted2 (document s1) (select sidebar_anchors [] (document s1)))
              (document s1) \<and>
          console s2 = console s \<and>
          (no_item_in_anchor (document s) \<longrightarrow> s2 = s1)"
proof -
  from u have d: "distinct (ids (document s))" by (simp add: unique_ids_def heap_def)
  from handler1_std[OF c u] obtain s1 where s1: "handler1 h s = Normal s1"
    "console s1 = console s" "unique_ids s1"
    "document s1 =
       fold cut_out (targets wanted1 (document s) (select sidebar_anchors [] (document s)))
         (document s)" by blast
  from handler2_std[OF c s1(3)] obtain s2 where s2: "handler2 h s1 = Normal s2"
    "console s2 = console s1"
    "document s2 =
       fold cut_out (targets wanted2 (document s1) (select sidebar_anchors [] (document s1)))
         (document s1)" by blast
  from s1(1) s2(1) have e: "DOMContentLoaded h s = s2"
    by (simp add: DOMContentLoaded_def listeners_def)
  have "s2 = s1" if ni: "no_item_in_anchor (document s)"
  proof -
    from second_pass_idle[OF d ni, of _ wanted1] s1(4)
    have "\<forall>a\<in>set (select sidebar_anchors [] (document s1)). target wanted1 (document s1) a = None"
      by simp
    then have "\<forall>a\<in>set (select sidebar_anchors [] (document s1)). target wanted2 (document s1) a = None"
      by (simp add: target_wanted2_None)
    from handler2_conforming[OF sweep_noop(2)[OF this c]] s2(1) show ?thesis by simp
  qed
  with s1 s2 e show ?thesis by simp
qed

section \<open>The claims\<close>

subsection \<open>C1\<close>

text \<open>
  C1, as the code has it. On a host whose DOM calls do not throw, and with unique
  element identities, the first handler returns normally, logs nothing, and leaves the
  document without the subtrees of the nearest \<open>li\<close> elements above the sidebar anchors
  whose trimmed, lowercased text is \<open>dashboard\<close> or \<open>groups\<close>: none of these \<open>li\<close>
  elements is in the document afterwards, and an element of the document is still there
  afterwards exactly when none of these \<open>li\<close> elements is the element itself or lies
  above it. So an item whose anchor does not match stays unless it lies inside such an
  \<open>li\<close>.
\<close>

theorem handler1_removes_nearest_items:
  assumes "conforming h" and "unique_ids s"
  shows "\<exists>s'. handler1 h s = Normal s' \<and> console s' = console s \<and>
     (\<forall>a\<in>set (select sidebar_anchors [] (document s)). \<forall>n e.
         lookup a (document s) = Some n \<longrightarrow>
         normalized (textData [n]) = ''dashboard'' \<or> normalized (textData [n]) = ''groups'' \<longrightarrow>
         closest_on list_item (anc a (document s)) = Some e \<longrightarrow>
         nid e \<notin> set (ids (document s'))) \<and>
     (\<forall>x. x \<in> set (ids (document s')) \<longleftrightarrow>
         x \<in> set (ids (document s)) \<and>
         \<not> (\<exists>a\<in>set (select sidebar_anchors [] (document s)). \<exists>n e.
              lookup a (document s) = Some n \<and>
              (normalized (textData [n]) = ''dashboard'' \<or> normalized (textData [n]) = ''groups'') \<and>
              closest_on list_item (anc a (document s)) = Some e \<and>
              nid e \<in> nid ` set (anc x (document s)))) \<and>
     document s' =
       fold cut_out (targets wanted1 (document s) (select sidebar_anchors [] (document s)))
         (document s)"
proof -
  let ?D = "document s"
  let ?A = "select sidebar_anchors [] ?D"
  from assms(2) have d: "distinct (ids ?D)" by (simp add: unique_ids_def heap_def)
  from handler1_std[OF assms] obtain s' where s': "handler1 h s = Normal s'"
    "console s' = console s" "document s' = fold cut_out (targets wanted1 ?D ?A) ?D" by blast
  have ids: "x \<in> set (ids (document s')) \<longleftrightarrow>
         x \<in> set (ids ?D) \<and>
         \<not> (\<exists>a\<in>set ?A. \<exists>n e.
              lookup a ?D = Some n \<and>
              (normalized (textData [n]) = ''dashboard'' \<or> normalized (textData [n]) = ''groups'') \<and>
              closest_on list_item (anc a ?D) = Some e \<and>
              nid e \<in> nid ` set (anc x ?D))" for x
  proof -
    have "set (targets wanted1 ?D ?A) \<inter> nid ` set (anc x ?D) = {} \<longleftrightarrow>
          \<not> (\<exists>a\<in>set ?A. \<exists>n e.
              lookup a ?D = Some n \<and>
              (normalized (textData [n]) = ''dashboard'' \<or> normalized (textData [n]) = ''groups'') \<and>
              closest_on list_item (anc a ?D) = Some e \<and>
              nid e \<in> nid ` set (anc x ?D))"
      unfolding disjoint_iff in_targets target_wanted1 by blast
    with ids_fold_cut_out[OF d, of x "targets wanted1 ?D ?A"] s'(3) show ?thesis by simp
  qed
  have gone: "nid e \<notin> set (ids (document s'))"
    if a: "a \<in> set ?A" and n: "lookup a ?D = Some n"
      and w: "normalized (textData [n]) = ''dashboard'' \<or> normalized (textData [n]) = ''groups''"
      and e: "closest_on list_item (anc a ?D) = Some e" for a n e
  proof -
    from closest_on_in[OF e] have "nid e \<in> set (ids ?D)" by (rule anc_ids)
    from anc_hd[OF this] have "nid e \<in> nid ` set (anc (nid e) ?D)" by force
    with a n w e ids[of "nid e"] show ?thesis by blast
  qed
  from s' ids gone show ?thesis by blast
qed

theorem handler1_removes_nearest_items_witness:
  "conforming std_host \<and> unique_ids (page three_items) \<and>
   (\<exists>s'. handler1 std_host (page three_items) = Normal s' \<and> console s' = [] \<and>
      document s' =
        [el 0 ''html'' [] [el 1 ''body'' [] [el 2 ''ul'' [''nav-sidebar'']
           [el 7 ''li'' [] [el 8 ''a'' [] [Text ''Reports'']]]]]])"
proof -
  have u: "unique_ids (page three_items)"
    by (simp add: unique_ids_def heap_def page_defs three_items_def)
  have f: "fold cut_out
       (targets wanted1 (document (page three_items))
          (select sidebar_anchors [] (document (page three_items))))
       (document (page three_items)) =
        [el 0 ''html'' [] [el 1 ''body'' [] [el 2 ''ul'' [''nav-sidebar'']
           [el 7 ''li'' [] [el 8 ''a'' [] [Text ''Reports'']]]]]]"
    by (simp add: targets_def map_filter_def target_def wanted1_def sidebar_anchors_def list_item_def
          page_defs string_defs three_items_def)
  have c: "console (page three_items) = []" by (simp add: page_def)
  from handler1_removes_nearest_items[OF conforming_std_host u] obtain s' where
    "handler1 std_host (page three_items) = Normal s'" "console s' = console (page three_items)"
    "document s' = fold cut_out
       (targets wanted1 (document (page three_items))
          (select sidebar_anchors [] (document (page three_items))))
       (document (page three_items))" by blast
  with f c conforming_std_host u show ?thesis by simp
qed

theorem nested_item_counterexample:
  "select sidebar_anchors [] (document (page nested_menu)) = [4, 7] \<and>
   lookup 7 (document (page nested_menu)) = Some (el 7 ''a'' [] [Text ''Reports'']) \<and>
   normalized (textData [el 7 ''a'' [] [Text ''Reports'']]) = ''reports'' \<and>
   closest_on list_item (anc 7 (document (page nested_menu))) =
     Some \<lparr>nid = 6, localName = ''li'', classList = []\<rparr> \<and>
   6 \<in> set (ids (document (page nested_menu))) \<and>
   handler1 std_host (page nested_menu) = Normal nested_menu_pruned \<and>
   6 \<notin> set (ids (document nested_menu_pruned)) \<and>
   7 \<notin> set (ids (document nested_menu_pruned))"
  by (simp add: script_defs call_defs page_defs string_defs nested_menu_def nested_menu_pruned_def
        sidebar_anchors_def list_item_def)

subsection \<open>C2\<close>

text \<open>
  C2, as the code has it. The test of the callback holds for a text exactly when the text
  is a label in any letter case with white space before and after it: \<open>dashboard\<close> or
  \<open>groups\<close> for the first handler. The text \<open> Dashboard \<close> passes it. For an anchor of
  the document that has an \<open>li\<close> above it, on a host whose DOM calls do not throw and with
  unique element identities, the callback of the first handler takes the anchor (with
  its nearest \<open>li\<close>) out of the document if and only if the trimmed, lowercased text of
  the anchor is \<open>dashboard\<close> or \<open>groups\<close>; the callback of the second handler, if and only
  if it is \<open>dashboard\<close>. An anchor with no \<open>li\<close> above it is not removed, whatever its
  text.
\<close>

theorem text_match_trims_and_lowercases:
  assumes "conforming h" and "unique_ids s"
    and "lookup a (document s) = Some n"
    and "closest_on list_item (anc a (document s)) = Some e"
  shows "((normalized x = ''dashboard'' \<or> normalized x = ''groups'') \<longleftrightarrow>
          (\<exists>ws1 core ws2. x = ws1 @ core @ ws2 \<and> list_all is_js_space ws1 \<and>
             list_all is_js_space ws2 \<and>
             (toLowerCase core = ''dashboard'' \<or> toLowerCase core = ''groups''))) \<and>
         normalized '' Dashboard '' = ''dashboard'' \<and>
         (\<exists>s'. callback1 h a s = Normal s' \<and>
            (a \<notin> set (ids (document s')) \<longleftrightarrow>
               normalized (textData [n]) = ''dashboard'' \<or> normalized (textData [n]) = ''groups'') \<and>
            (nid e \<notin> set (ids (document s')) \<longleftrightarrow>
               normalized (textData [n]) = ''dashboard'' \<or> normalized (textData [n]) = ''groups'')) \<and>
         (\<exists>s'. callback2 h a s = Normal s' \<and>
            (a \<notin> set (ids (document s')) \<longleftrightarrow> normalized (textData [n]) = ''dashboard'') \<and>
            (nid e \<notin> set (ids (document s')) \<longleftrightarrow> normalized (textData [n]) = ''dashboard''))"
proof -
  have 1: "normalized '' Dashboard '' = ''dashboard''"
    by (simp add: string_defs)
  from callback_on_item[OF assms, of wanted1] callback_on_item[OF assms, of wanted2]
    wanted1_iff[of x] 1
  show ?thesis
    unfolding callback1_prune callback2_prune wanted1_def wanted2_def by blast
qed

theorem text_match_trims_and_lowercases_witness:
  "conforming std_host \<and> unique_ids (page spaced_item) \<and>
   lookup 4 (document (page spaced_item)) = Some (el 4 ''a'' [] [Text '' Dashboard '']) \<and>
   closest_on list_item (anc 4 (document (page spaced_item))) =
     Some \<lparr>nid = 3, localName = ''li'', classList = []\<rparr> \<and>
   (\<exists>s'. callback1 std_host 4 (page spaced_item) = Normal s' \<and>
      4 \<notin> set (ids (document s')) \<and> 3 \<notin> set (ids (document s'))) \<and>
   (\<exists>s'. callback2 std_host 4 (page spaced_item) = Normal s' \<and>
      4 \<notin> set (ids (document s')) \<and> 3 \<notin> set (ids (document s')))"
proof -
  have u: "unique_ids (page spaced_item)"
    by (simp add: unique_ids_def heap_def page_defs spaced_item_def)
  have l: "lookup 4 (document (page spaced_item)) = Some (el 4 ''a'' [] [Text '' Dashboard ''])"
    by (simp add: page_defs spaced_item_def)
  have e: "closest_on list_item (anc 4 (document (page spaced_item))) =
     Some \<lparr>nid = 3, localName = ''li'', classList = []\<rparr>"
    by (simp add: page_defs spaced_item_def list_item_def)
  have t: "normalized (textData [el 4 ''a'' [] [Text '' Dashboard '']]) = ''dashboard''"
    by (simp add: el_def string_defs)
  from text_match_trims_and_lowercases[OF conforming_std_host u l e] t conforming_std_host u l e
  show ?thesis by simp
qed

theorem matching_anchor_stays_counterexample:
  "select sidebar_anchors [] (document (page bare_anchors)) = [3, 4] \<and>
   lookup 3 (document (page bare_anchors)) = Some (el 3 ''a'' [''nav-link''] [Text ''Dashboard'']) \<and>
   normalized (textData [el 3 ''a'' [''nav-link''] [Text ''Dashboard'']]) = ''dashboard'' \<and>
   callback1 std_host 3 (page bare_anchors) = Normal (page bare_anchors) \<and>
   handler1 std_host (page bare_anchors) = Normal (page bare_anchors) \<and>
   DOMContentLoaded std_host (page bare_anchors) = page bare_anchors \<and>
   3 \<in> set (ids (document (page bare_anchors)))"
  by (simp add: script_defs call_defs page_defs string_defs bare_anchors_def sidebar_anchors_def)

subsection \<open>C3\<close>

text \<open>
  C3, as the code has it. If no element of the document has the class \<open>nav-sidebar\<close>, the
  first handler returns normally and leaves the document and the detached nodes as they
  are; on a host whose DOM calls do not throw it logs nothing: the page, console
  included, is the one it got.
\<close>

theorem missing_sidebar_is_silent:
  assumes "select (Simple (Class ''nav-sidebar'')) [] (document s) = []"
  shows "(\<exists>s'. handler1 h s = Normal s' \<and> document s' = document s \<and> detached s' = detached s) \<and>
         (conforming h \<longrightarrow> handler1 h s = Normal s)"
  using assms by (rule handler1_no_sidebar)

theorem missing_sidebar_is_silent_witness:
  "select (Simple (Class ''nav-sidebar'')) [] (document (page plain_page)) = [] \<and>
   conforming std_host \<and>
   handler1 std_host (page plain_page) = Normal (page plain_page)"
proof -
  have e: "select (Simple (Class ''nav-sidebar'')) [] (document (page plain_page)) = []"
    by (simp add: page_def plain_page_def el_def)
  from missing_sidebar_is_silent[OF e, of std_host] conforming_std_host e show ?thesis by blast
qed

theorem missing_sidebar_counterexample:
  "select (Simple (Class ''nav-sidebar'')) [] (document (page plain_page)) = [] \<and>
   console (page plain_page) = [] \<and>
   handler1 std_host (page plain_page) = Normal (page plain_page)"
proof -
  have e: "select (Simple (Class ''nav-sidebar'')) [] (document (page plain_page)) = []"
    by (simp add: page_def plain_page_def el_def)
  from handler1_no_sidebar[OF e, of std_host] conforming_std_host e show ?thesis
    by (simp add: page_def)
qed

subsection \<open>C4\<close>

text \<open>
  C4, as the code has it. On a host whose DOM calls do not throw, with unique element
  identities and a document in which no \<open>li\<close> element lies inside an \<open>a\<close> element, the
  first handler run on the page it returned gives that page back unchanged. After the
  first run every sidebar anchor whose trimmed, lowercased text is \<open>dashboard\<close> or
  \<open>groups\<close> has no \<open>li\<close> above it (such an anchor can remain), so the second run removes
  nothing.
\<close>

theorem handler1_twice:
  assumes "conforming h" and "unique_ids s" and "no_item_in_anchor (document s)"
  shows "\<exists>s1. handler1 h s = Normal s1 \<and> handler1 h s1 = Normal s1 \<and>
           (\<forall>a\<in>set (select sidebar_anchors [] (document s1)). \<forall>n.
               lookup a (document s1) = Some n \<longrightarrow>
               normalized (textData [n]) = ''dashboard'' \<or> normalized (textData [n]) = ''groups'' \<longrightarrow>
               closest_on list_item (anc a (document s1)) = None)"
proof -
  from assms(2) have d: "distinct (ids (document s))" by (simp add: unique_ids_def heap_def)
  from handler1_std[OF assms(1,2)] obtain s1 where s1: "handler1 h s = Normal s1"
    "document s1 = fold cut_out (targets wanted1 (document s) (select sidebar_anchors [] (document s)))
               (document s)" by blast
  from second_pass_idle[OF d assms(3), of _ wanted1] s1(2)
  have idle: "\<forall>a\<in>set (select sidebar_anchors [] (document s1)). target wanted1 (document s1) a = None"
    by simp
  from handler1_conforming[OF assms(1) sweep_noop(2)[OF idle assms(1)]]
  have "handler1 h s1 = Normal s1" .
  moreover from idle have "\<forall>a\<in>set (select sidebar_anchors [] (document s1)). \<forall>n.
               lookup a (document s1) = Some n \<longrightarrow>
               normalized (textData [n]) = ''dashboard'' \<or> normalized (textData [n]) = ''groups'' \<longrightarrow>
               closest_on list_item (anc a (document s1)) = None"
    by (auto simp: target_def wanted1_def split: option.splits)
  ultimately show ?thesis using s1(1) by blast
qed

theorem handler1_twice_witness:
  "conforming std_host \<and> unique_ids (page three_items) \<and>
   no_item_in_anchor (document (page three_items)) \<and>
   (\<exists>s1. handler1 std_host (page three_items) = Normal s1 \<and> handler1 std_host s1 = Normal s1)"
proof -
  have u: "unique_ids (page three_items)"
    by (simp add: unique_ids_def heap_def page_defs three_items_def)
  have n: "no_item_in_anchor (document (page three_items))"
    by (simp add: no_item_in_anchor_def page_defs three_items_def)
  from handler1_twice[OF conforming_std_host u n] conforming_std_host u n show ?thesis by blast
qed

theorem handler1_twice_counterexample:
  "unique_ids (page item_in_anchor) \<and>
   handler1 std_host (page item_in_anchor) = Normal item_in_anchor_once \<and>
   handler1 std_host item_in_anchor_once = Normal item_in_anchor_twice \<and>
   document item_in_anchor_twice \<noteq> document item_in_anchor_once \<and>
   3 \<in> set (ids (document item_in_anchor_once)) \<and>
   3 \<notin> set (ids (document item_in_anchor_twice)) \<and>
   handler1 std_host (page bare_anchors) = Normal (page bare_anchors) \<and>
   select sidebar_anchors [] (document (page bare_anchors)) = [3, 4] \<and>
   lookup 3 (document (page bare_anchors)) = Some (el 3 ''a'' [''nav-link''] [Text ''Dashboard'']) \<and>
   normalized (textData [el 3 ''a'' [''nav-link''] [Text ''Dashboard'']]) = ''dashboard''"
  by (simp add: script_defs call_defs page_defs string_defs item_in_anchor_def unique_ids_def
        item_in_anchor_once_def item_in_anchor_twice_def bare_anchors_def sidebar_anchors_def)

subsection \<open>C5\<close>

text \<open>
  C5. If no sidebar anchor has the normalized text \<open>dashboard\<close> or \<open>groups\<close>, each of the
  two handlers returns normally and leaves the document and the detached nodes as they
  are; on a host whose DOM calls do not throw the page, console included, is unchanged,
  also after the whole event.
\<close>

theorem no_match_unchanged:
  assumes "\<forall>a\<in>set (select sidebar_anchors [] (document s)). \<forall>n.
             lookup a (document s) = Some n \<longrightarrow>
             normalized (textData [n]) \<noteq> ''dashboard'' \<and> normalized (textData [n]) \<noteq> ''groups''"
  shows "(\<exists>s'. handler1 h s = Normal s' \<and> document s' = document s \<and> detached s' = detached s) \<and>
         (\<exists>s'. handler2 h s = Normal s' \<and> document s' = document s \<and> detached s' = detached s) \<and>
         (conforming h \<longrightarrow>
            handler1 h s = Normal s \<and> handler2 h s = Normal s \<and> DOMContentLoaded h s = s)"
proof -
  from assms have t1: "\<forall>a\<in>set (select sidebar_anchors [] (document s)). target wanted1 (document s) a = None"
    by (auto simp: target_def wanted1_def split: option.splits)
  from assms have t2: "\<forall>a\<in>set (select sidebar_anchors [] (document s)). target wanted2 (document s) a = None"
    by (auto simp: target_def wanted2_def split: option.splits)
  have 1: "\<exists>s'. handler1 h s = Normal s' \<and> document s' = document s \<and> detached s' = detached s"
    using handler1_shape[of h s] sweep_noop(1)[OF t1, of h] by (auto simp: console_warn_def)
  have 2: "\<exists>s'. handler2 h s = Normal s' \<and> document s' = document s \<and> detached s' = detached s"
    using handler2_shape[of h s] sweep_noop(1)[OF t2, of h] by (auto simp: console_warn_def)
  have 3: "handler1 h s = Normal s \<and> handler2 h s = Normal s \<and> DOMContentLoaded h s = s"
    if c: "conforming h"
    using handler1_conforming[OF c sweep_noop(2)[OF t1 c]] handler2_conforming[OF sweep_noop(2)[OF t2 c]]
    by (simp add: DOMContentLoaded_def listeners_def)
  from 1 2 3 show ?thesis by blast
qed

theorem no_match_unchanged_witness:
  "select sidebar_anchors [] (document (page reports_only)) = [4] \<and>
   map_option (\<lambda>n. normalized (textData [n])) (lookup 4 (document (page reports_only))) =
     Some ''reports'' \<and>
   conforming std_host \<and>
   handler1 std_host (page reports_only) = Normal (page reports_only) \<and>
   handler2 std_host (page reports_only) = Normal (page reports_only) \<and>
   DOMContentLoaded std_host (page reports_only) = page reports_only"
proof -
  have a: "select sidebar_anchors [] (document (page reports_only)) = [4]"
    by (simp add: page_def reports_only_def el_def sidebar_anchors_def)
  have t: "map_option (\<lambda>n. normalized (textData [n])) (lookup 4 (document (page reports_only))) =
     Some ''reports''"
    by (simp add: page_def reports_only_def el_def normalized_def trim_def
        toLowerCase_def is_js_space_def lower_unit_def char_of_eq_iff)
  from a t have h: "\<forall>a\<in>set (select sidebar_anchors [] (document (page reports_only))). \<forall>n.
        lookup a (document (page reports_only)) = Some n \<longrightarrow>
        normalized (textData [n]) \<noteq> ''dashboard'' \<and> normalized (textData [n]) \<noteq> ''groups''"
    by auto
  from no_match_unchanged[OF h, of std_host] conforming_std_host a t show ?thesis by blast
qed

subsection \<open>C6\<close>

text \<open>
  C6. Whatever DOM calls of the host throw, each handler returns normally. The page it
  returns is the page that the callback, run without failures over a first part of the
  sidebar anchors, leaves: either over all of them with nothing logged by the loop, or
  with one warning \<open>Sidebar customization failed\<close> added to the console. So what was
  removed before the failure stays removed, and nothing after it is touched.
\<close>

theorem failures_are_caught:
  "(case handler1_body h s of
      Normal s' \<Rightarrow> handler1 h s = Normal s'
    | Abrupt e s' \<Rightarrow> handler1 h s = Normal (console_warn ''Sidebar customization failed'' e s')) \<and>
   (case remove_dashboard h s of
      Normal s' \<Rightarrow> handler2 h s = Normal s'
    | Abrupt e s' \<Rightarrow> handler2 h s = Normal (console_warn ''Sidebar customization failed'' e s')) \<and>
   (\<exists>s0 pre. prefix pre (select sidebar_anchors [] (document s)) \<and>
      for_each (callback1 (quiet h)) pre s = Normal s0 \<and>
      ((pre = select sidebar_anchors [] (document s) \<and> handler1 h s = Normal s0) \<or>
       (\<exists>e. handler1 h s = Normal (console_warn ''Sidebar customization failed'' e s0)))) \<and>
   (\<exists>s0 pre. prefix pre (select sidebar_anchors [] (document s)) \<and>
      for_each (callback2 (quiet h)) pre s = Normal s0 \<and>
      ((pre = select sidebar_anchors [] (document s) \<and> handler2 h s = Normal s0) \<or>
       (\<exists>e. handler2 h s = Normal (console_warn ''Sidebar customization failed'' e s0))))"
proof -
  have 1: "case handler1_body h s of
      Normal s' \<Rightarrow> handler1 h s = Normal s'
    | Abrupt e s' \<Rightarrow> handler1 h s = Normal (console_warn ''Sidebar customization failed'' e s')"
    by (simp add: handler1_def split: completion.splits)
  have 2: "case remove_dashboard h s of
      Normal s' \<Rightarrow> handler2 h s = Normal s'
    | Abrupt e s' \<Rightarrow> handler2 h s = Normal (console_warn ''Sidebar customization failed'' e s')"
    by (simp add: handler2_def split: completion.splits)
  from 1 2 handler1_caught[of s h] handler2_caught[of s h] show ?thesis by blast
qed

theorem failures_are_caught_witness:
  "handler1 numb_host (page two_items) =
     Normal \<lparr>document = [el 0 ''html'' [] [el 1 ''body'' [] [el 2 ''ul'' [''nav-sidebar'']
                 [el 5 ''li'' [] [el 6 ''a'' [] [Text ''Groups'']]]]]],
             detached = [el 3 ''li'' [] [el 4 ''a'' [] [Text ''Dashboard'']]],
             console = [(''Sidebar customization failed'', HostError (TextContent 6))]\<rparr> \<and>
   (\<exists>s0 pre. prefix pre (select sidebar_anchors [] (document (page two_items))) \<and>
      for_each (callback1 (quiet numb_host)) pre (page two_items) = Normal s0 \<and>
      ((pre = select sidebar_anchors [] (document (page two_items)) \<and>
        handler1 numb_host (page two_items) = Normal s0) \<or>
       (\<exists>e. handler1 numb_host (page two_items) =
          Normal (console_warn ''Sidebar customization failed'' e s0))))"
  using two_items_handler1 failures_are_caught[where h = numb_host and s = "page two_items"] by blast

subsection \<open>C7\<close>




subsection \<open>C8\<close>

text \<open>
  C8. Take lines 12 to 29 out of the first handler (the search for the \<^verbatim>\<open>ul\<close> and the
  declaration of \<^verbatim>\<open>addItem\<close>, which nothing calls). On every page and every host the
  first handler, and the whole event, leave the same document and the same detached
  nodes as before; on a host whose DOM calls do not throw the pages are equal, console
  included. The script adds no element: every element of the document after the event
  was in the document before.
\<close>

theorem appender_is_dead_code:
  "(\<exists>s1 s2. handler1 h s = Normal s1 \<and> handler1_without_appender h s = Normal s2 \<and>
      document s1 = document s2 \<and> detached s1 = detached s2) \<and>
   document (DOMContentLoaded h s) = document (dispatch h [handler1_without_appender, handler2] s) \<and>
   detached (DOMContentLoaded h s) = detached (dispatch h [handler1_without_appender, handler2] s) \<and>
   (conforming h \<longrightarrow>
      handler1 h s = handler1_without_appender h s \<and>
      DOMContentLoaded h s = dispatch h [handler1_without_appender, handler2] s) \<and>
   set (ids (document (DOMContentLoaded h s))) \<subseteq> set (ids (document s))"
proof -
  from handler1_same_tree[of h s] obtain s1 s2 where
    s: "handler1 h s = Normal s1" "handler1_without_appender h s = Normal s2"
       "document s1 = document s2" "detached s1 = detached s2" by blast
  from handler2_same_tree[of s1 s2 h] s(3,4) obtain t2 t1 where
    t: "handler2 h s2 = Normal t2" "handler2 h s1 = Normal t1"
       "document t1 = document t2" "detached t1 = detached t2" by auto
  have a: "DOMContentLoaded h s = t1" "dispatch h [handler1_without_appender, handler2] s = t2"
    using s t by (simp_all add: DOMContentLoaded_def listeners_def)
  have c: "handler1 h s = handler1_without_appender h s \<and>
      DOMContentLoaded h s = dispatch h [handler1_without_appender, handler2] s" if "conforming h"
    using handler1_same_conforming[OF that, of s] by (simp add: DOMContentLoaded_def listeners_def)
  have "set (ids (document t1)) \<subseteq> set (ids (document s))"
    using handler_ids_subset(1)[OF s(1)] handler_ids_subset(2)[OF t(2)] by blast
  with s t a c show ?thesis by auto
qed

theorem appender_is_dead_code_witness:
  "conforming std_host \<and>
   handler1 std_host (page exams_menu) = handler1_without_appender std_host (page exams_menu) \<and>
   DOMContentLoaded std_host (page exams_menu) =
     dispatch std_host [handler1_without_appender, handler2] (page exams_menu) \<and>
   DOMContentLoaded std_host (page exams_menu) =
     \<lparr>document = [el 0 ''html'' [] [el 1 ''body'' [] [el 2 ''ul'' [''nav'', ''nav-sidebar'']
        [el 5 ''li'' [''nav-header''] [Text '' Exams ''],
         Text [CHR 0x0A],
         el 6 ''ul'' [''nav'', ''nav-treeview'']
           [el 7 ''li'' [''nav-item''] [el 8 ''a'' [] [Text ''Papers'']]]]]]],
      detached = [el 3 ''li'' [''nav-item''] [el 4 ''a'' [] [Text ''Dashboard'']]],
      console = []\<rparr>"
proof -
  have c: "DOMContentLoaded std_host (page exams_menu) =
     \<lparr>document = [el 0 ''html'' [] [el 1 ''body'' [] [el 2 ''ul'' [''nav'', ''nav-sidebar'']
        [el 5 ''li'' [''nav-header''] [Text '' Exams ''],
         Text [CHR 0x0A],
         el 6 ''ul'' [''nav'', ''nav-treeview'']
           [el 7 ''li'' [''nav-item''] [el 8 ''a'' [] [Text ''Papers'']]]]]]],
      detached = [el 3 ''li'' [''nav-item''] [el 4 ''a'' [] [Text ''Dashboard'']]],
      console = []\<rparr>"
    by (simp add: script_defs call_defs page_defs string_defs exams_menu_def)
  from appender_is_dead_code[of std_host "page exams_menu"] conforming_std_host
  have e: "handler1 std_host (page exams_menu) = handler1_without_appender std_host (page exams_menu) \<and>
    DOMContentLoaded std_host (page exams_menu) =
      dispatch std_host [handler1_without_appender, handler2] (page exams_menu)"
    by blast
  from conforming_std_host e c show ?thesis by (intro conjI) (simp_all only:)
qed

subsection \<open>C9\<close>

text \<open>
  C9, as the code has it. One \<^verbatim>\<open>DOMContentLoaded\<close> event runs the first handler and then
  the second handler, on the page that the first one left, and both return normally: the
  removal logic goes over the sidebar anchors twice for one event. When the query for the
  anchors throws, the event leaves two warnings on the console, one of each handler. On a
  host whose DOM calls do not throw, with unique element identities, the document after
  the event is the result of two removal passes, the first for the labels \<open>dashboard\<close>
  and \<open>groups\<close>, the second, on the document that the first left, for \<open>dashboard\<close>, and
  nothing is logged; the second pass removes nothing when no \<open>li\<close> element lies inside an
  \<open>a\<close> element.
\<close>

theorem event_runs_both_handlers:
  "(\<exists>s1 s2. handler1 h s = Normal s1 \<and> handler2 h s1 = Normal s2 \<and> DOMContentLoaded h s = s2) \<and>
   (throws h (QuerySelectorAll sidebar_anchors) \<longrightarrow>
      DOMContentLoaded h s =
        s\<lparr>console := console s @
          [(''Sidebar customization failed'', HostError (QuerySelectorAll sidebar_anchors)),
           (''Sidebar customization failed'', HostError (QuerySelectorAll sidebar_anchors))]\<rparr>) \<and>
   (conforming h \<longrightarrow> unique_ids s \<longrightarrow>
      (\<exists>s1 s2. handler1 h s = Normal s1 \<and> handler2 h s1 = Normal s2 \<and>
         DOMContentLoaded h s = s2 \<and>
         document s1 =
           fold cut_out
             (targets (\<lambda>t. t = ''dashboard'' \<or> t = ''groups'') (document s)
                (select sidebar_anchors [] (document s)))
             (document s) \<and>
         document s2 =
           fold cut_out
             (targets (\<lambda>t. t = ''dashboard'') (document s1)
                (select sidebar_anchors [] (document s1)))
             (document s1) \<and>
         console s2 = console s \<and>
         (no_item_in_anchor (document s) \<longrightarrow> s2 = s1)))"
proof (intro conjI impI)
  show "\<exists>s1 s2. handler1 h s = Normal s1 \<and> handler2 h s1 = Normal s2 \<and> DOMContentLoaded h s = s2"
    by (rule each_handler_returns)
next
  assume "throws h (QuerySelectorAll sidebar_anchors)"
  then show "DOMContentLoaded h s =
        s\<lparr>console := console s @
          [(''Sidebar customization failed'', HostError (QuerySelectorAll sidebar_anchors)),
           (''Sidebar customization failed'', HostError (QuerySelectorAll sidebar_anchors))]\<rparr>"
    by (rule query_throws_twice)
next
  assume "conforming h" "unique_ids s"
  from event_two_passes[OF this]
  show "\<exists>s1 s2. handler1 h s = Normal s1 \<and> handler2 h s1 = Normal s2 \<and>
         DOMContentLoaded h s = s2 \<and>
         document s1 =
           fold cut_out
             (targets (\<lambda>t. t = ''dashboard'' \<or> t = ''groups'') (document s)
                (select sidebar_anchors [] (document s)))
             (document s) \<and>
         document s2 =
           fold cut_out
             (targets (\<lambda>t. t = ''dashboard'') (document s1)
                (select sidebar_anchors [] (document s1)))
             (document s1) \<and>
         console s2 = console s \<and>
         (no_item_in_anchor (document s) \<longrightarrow> s2 = s1)"
    unfolding wanted_labels .
qed

theorem event_runs_both_handlers_witness:
  "conforming std_host \<and> unique_ids (page two_items) \<and>
   no_item_in_anchor (document (page two_items)) \<and>
   throws deaf_host (QuerySelectorAll sidebar_anchors) \<and>
   (\<exists>s1. handler1 std_host (page two_items) = Normal s1 \<and> handler2 std_host s1 = Normal s1 \<and>
      DOMContentLoaded std_host (page two_items) = s1) \<and>
   DOMContentLoaded std_host (page two_items) =
     \<lparr>document = [el 0 ''html'' [] [el 1 ''body'' [] [el 2 ''ul'' [''nav-sidebar''] []]]],
      detached = [el 3 ''li'' [] [el 4 ''a'' [] [Text ''Dashboard'']],
                  el 5 ''li'' [] [el 6 ''a'' [] [Text ''Groups'']]],
      console = []\<rparr> \<and>
   console (DOMContentLoaded deaf_host (page two_items)) =
     [(''Sidebar customization failed'', HostError (QuerySelectorAll sidebar_anchors)),
      (''Sidebar customization failed'', HostError (QuerySelectorAll sidebar_anchors))]"
proof -
  have u: "unique_ids (page two_items)"
    by (simp add: unique_ids_def heap_def page_defs two_items_def)
  have n: "no_item_in_anchor (document (page two_items))"
    by (simp add: no_item_in_anchor_def page_defs two_items_def)
  have t: "throws deaf_host (QuerySelectorAll sidebar_anchors)"
    by (simp add: deaf_host_def)
  have v: "DOMContentLoaded std_host (page two_items) =
     \<lparr>document = [el 0 ''html'' [] [el 1 ''body'' [] [el 2 ''ul'' [''nav-sidebar''] []]]],
      detached = [el 3 ''li'' [] [el 4 ''a'' [] [Text ''Dashboard'']],
                  el 5 ''li'' [] [el 6 ''a'' [] [Text ''Groups'']]],
      console = []\<rparr>"
    by (simp add: script_defs call_defs page_defs string_defs two_items_def)
  from event_runs_both_handlers[of std_host "page two_items"] conforming_std_host u n
  have a: "\<exists>s1. handler1 std_host (page two_items) = Normal s1 \<and> handler2 std_host s1 = Normal s1 \<and>
      DOMContentLoaded std_host (page two_items) = s1" by blast
  from event_runs_both_handlers[of deaf_host "page two_items"] t
  have b: "console (DOMContentLoaded deaf_host (page two_items)) =
     [(''Sidebar customization failed'', HostError (QuerySelectorAll sidebar_anchors)),
      (''Sidebar customization failed'', HostError (QuerySelectorAll sidebar_anchors))]"
    by (simp add: page_def)
  from conforming_std_host u n t a v b show ?thesis by (intro conjI) (simp_all only:)
qed

theorem two_passes_counterexample:
  "console (DOMContentLoaded deaf_host (page two_items)) =
     [(''Sidebar customization failed'',
       HostError (QuerySelectorAll (Descendant (Class ''nav-sidebar'') (Tag ''a'')))),
      (''Sidebar customization failed'',
       HostError (QuerySelectorAll (Descendant (Class ''nav-sidebar'') (Tag ''a''))))] \<and>
   handler1 std_host (page item_in_anchor) =
     Normal \<lparr>document = [el 0 ''html'' [] [el 1 ''body'' [] [el 2 ''ul'' [''nav-sidebar'']
                 [el 3 ''li'' [] [el 4 ''a'' [] [Text ''Dash'', Text ''board'']]]]]],
             detached = [el 5 ''li'' [] [el 6 ''a'' [] [Text ''groups'']]],
             console = []\<rparr> \<and>
   DOMContentLoaded std_host (page item_in_anchor) =
     \<lparr>document = [el 0 ''html'' [] [el 1 ''body'' [] [el 2 ''ul'' [''nav-sidebar''] []]]],
      detached = [el 5 ''li'' [] [el 6 ''a'' [] [Text ''groups'']],
                  el 3 ''li'' [] [el 4 ''a'' [] [Text ''Dash'', Text ''board'']]],
      console = []\<rparr>"
  by (simp add: script_defs call_defs page_defs string_defs two_items_def item_in_anchor_def
        deaf_host_def)

subsection \<open>C10\<close>

text \<open>
  C10. An anchor of the document that has no \<open>li\<close> element above it is left alone,
  whatever its text: each of the two callbacks returns the page as it got it (or throws on
  a host whose DOM call throws, the page still unchanged), and raises nothing on a host
  whose DOM calls do not throw. With unique element identities the anchor is still in the
  document after each handler and after the whole event. If no sidebar anchor has an
  \<open>li\<close> above it, a host whose calls do not throw gets the whole page back unchanged.
\<close>

theorem anchor_without_item_stays:
  assumes "a \<in> set (ids (document s))"
    and "closest_on list_item (anc a (document s)) = None"
  shows "(callback1 h a s = Normal s \<or> (\<exists>e. callback1 h a s = Abrupt e s)) \<and>
         (callback2 h a s = Normal s \<or> (\<exists>e. callback2 h a s = Abrupt e s)) \<and>
         (conforming h \<longrightarrow> callback1 h a s = Normal s \<and> callback2 h a s = Normal s) \<and>
         (unique_ids s \<longrightarrow>
            (\<exists>s'. handler1 h s = Normal s' \<and> a \<in> set (ids (document s'))) \<and>
            (\<exists>s'. handler2 h s = Normal s' \<and> a \<in> set (ids (document s'))) \<and>
            a \<in> set (ids (document (DOMContentLoaded h s)))) \<and>
         (conforming h \<longrightarrow>
            (\<forall>b\<in>set (select sidebar_anchors [] (document s)).
               closest_on list_item (anc b (document s)) = None) \<longrightarrow>
            handler1 h s = Normal s \<and> handler2 h s = Normal s)"
proof -
  note t = target_without_item[OF assms(2)]
  have 1: "callback1 h a s = Normal s \<or> (\<exists>e. callback1 h a s = Abrupt e s)"
    using prune_anchor_noop(1)[OF assms(1) t, of h] by (simp add: callback1_prune)
  have 2: "callback2 h a s = Normal s \<or> (\<exists>e. callback2 h a s = Abrupt e s)"
    using prune_anchor_noop(1)[OF assms(1) t, of h] by (simp add: callback2_prune)
  have 3: "callback1 h a s = Normal s \<and> callback2 h a s = Normal s" if "conforming h"
    using prune_anchor_noop(2)[OF assms(1) t that] by (simp add: callback1_prune callback2_prune)
  have 4: "(\<exists>s'. handler1 h s = Normal s' \<and> a \<in> set (ids (document s'))) \<and>
            (\<exists>s'. handler2 h s = Normal s' \<and> a \<in> set (ids (document s'))) \<and>
            a \<in> set (ids (document (DOMContentLoaded h s)))" if u: "unique_ids s"
  proof -
    from handler1_keeps_anchor[OF u assms] obtain s1 where
      s1: "handler1 h s = Normal s1" "a \<in> set (ids (document s1))"
        "closest_on list_item (anc a (document s1)) = None" "unique_ids s1" by blast
    from handler2_keeps_anchor[OF s1(4) s1(2) s1(3)] obtain s2 where
      s2: "handler2 h s1 = Normal s2" "a \<in> set (ids (document s2))" by blast
    from s1(1) s2 have "a \<in> set (ids (document (DOMContentLoaded h s)))"
      by (simp add: DOMContentLoaded_def listeners_def)
    with s1(1,2) handler2_keeps_anchor[OF u assms, of h] show ?thesis by blast
  qed
  have 5: "handler1 h s = Normal s \<and> handler2 h s = Normal s"
    if c: "conforming h"
      and n: "\<forall>b\<in>set (select sidebar_anchors [] (document s)).
               closest_on list_item (anc b (document s)) = None"
  proof -
    from n have "\<forall>b\<in>set (select sidebar_anchors [] (document s)). target wanted1 (document s) b = None"
      and "\<forall>b\<in>set (select sidebar_anchors [] (document s)). target wanted2 (document s) b = None"
      by (simp_all add: target_without_item)
    with handler1_conforming[OF c sweep_noop(2)[OF _ c]] handler2_conforming[OF sweep_noop(2)[OF _ c]]
    show ?thesis by blast
  qed
  from 1 2 3 4 5 show ?thesis by blast
qed

theorem anchor_without_item_stays_witness:
  "select sidebar_anchors [] (document (page bare_anchors)) = [3, 4] \<and>
   map_option (\<lambda>n. normalized (textData [n])) (lookup 3 (document (page bare_anchors))) =
     Some ''dashboard'' \<and>
   closest_on list_item (anc 3 (document (page bare_anchors))) = None \<and>
   closest_on list_item (anc 4 (document (page bare_anchors))) = None \<and>
   unique_ids (page bare_anchors) \<and> conforming std_host \<and>
   callback1 std_host 3 (page bare_anchors) = Normal (page bare_anchors) \<and>
   callback2 std_host 3 (page bare_anchors) = Normal (page bare_anchors) \<and>
   handler1 std_host (page bare_anchors) = Normal (page bare_anchors) \<and>
   handler2 std_host (page bare_anchors) = Normal (page bare_anchors) \<and>
   3 \<in> set (ids (document (DOMContentLoaded std_host (page bare_anchors))))"
proof -
  have sl: "select sidebar_anchors [] (document (page bare_anchors)) = [3, 4]"
    by (simp add: page_def bare_anchors_def el_def sidebar_anchors_def)
  have tx: "map_option (\<lambda>n. normalized (textData [n])) (lookup 3 (document (page bare_anchors))) =
     Some ''dashboard''"
    by (simp add: page_def bare_anchors_def el_def normalized_def trim_def
        toLowerCase_def is_js_space_def lower_unit_def char_of_eq_iff)
  have a: "3 \<in> set (ids (document (page bare_anchors)))"
    by (simp add: page_def bare_anchors_def el_def)
  have n3: "closest_on list_item (anc 3 (document (page bare_anchors))) = None"
    by (simp add: page_def bare_anchors_def el_def list_item_def)
  have n4: "closest_on list_item (anc 4 (document (page bare_anchors))) = None"
    by (simp add: page_def bare_anchors_def el_def list_item_def)
  have u: "unique_ids (page bare_anchors)"
    by (simp add: unique_ids_def heap_def page_def bare_anchors_def el_def)
  from sl n3 n4 have all: "\<forall>b\<in>set (select sidebar_anchors [] (document (page bare_anchors))).
      closest_on list_item (anc b (document (page bare_anchors))) = None" by simp
  from anchor_without_item_stays[OF a n3, of std_host] conforming_std_host u all sl tx n3 n4
  show ?thesis by blast
qed

end
